theory Spec2Isabelle
  imports Main "HOL-Library.Sublist" "HOL-Library.Multiset"
begin

section \<open>Python values\<close>

text \<open>
  The arguments of the functions of \<^verbatim>\<open>cubing_in_pandas.py\<close> are dynamically typed.
  \<open>pyval\<close> holds the Python values the functions are called with: \<open>None\<close>, integers,
  strings, lists, tuples, dicts (insertion ordered, as an association list) and
  callables (named).
\<close>

datatype pyval =
    PNone
  | PInt int
  | PStr string
  | PList "pyval list"
  | PTuple "pyval list"
  | PDict "(pyval \<times> pyval) list"
  | PFunc string

datatype error =
    ValueError string
  | TypeError
  | KeyError
  | AttributeError
  | EngineError string

fun is_str :: "pyval \<Rightarrow> bool" where
  "is_str (PStr s) = True"
| "is_str v = False"

fun is_dict :: "pyval \<Rightarrow> bool" where
  "is_dict (PDict kvs) = True"
| "is_dict v = False"

text \<open>Python's \<open>hash\<close> raises TypeError on lists and dicts, and on tuples holding one.\<close>

fun hashable :: "pyval \<Rightarrow> bool" where
  "hashable (PList xs) = False"
| "hashable (PDict kvs) = False"
| "hashable (PTuple xs) = list_all hashable xs"
| "hashable v = True"

text \<open>Iterating a value, as \<open>set(x)\<close>, \<open>list(x)\<close> and \<open>for\<close> do.\<close>

fun py_iter :: "pyval \<Rightarrow> error + pyval list" where
  "py_iter (PList xs) = Inr xs"
| "py_iter (PTuple xs) = Inr xs"
| "py_iter (PDict kvs) = Inr (map fst kvs)"
| "py_iter (PStr s) = Inr (map (\<lambda>c. PStr [c]) s)"
| "py_iter v = Inl TypeError"

text \<open>
  \<open>set(x)\<close>: a Python set is kept as the duplicate-free list of its elements;
  building it hashes every element.
\<close>

definition py_set :: "pyval \<Rightarrow> error + pyval list" where
  "py_set v =
     (case py_iter v of
        Inl e \<Rightarrow> Inl e
      | Inr xs \<Rightarrow> if list_all hashable xs then Inr (remdups xs) else Inl TypeError)"

text \<open>The operator \<open>+\<close> on two values.\<close>

fun py_add :: "pyval \<Rightarrow> pyval \<Rightarrow> error + pyval" where
  "py_add (PList xs) (PList ys) = Inr (PList (xs @ ys))"
| "py_add (PTuple xs) (PTuple ys) = Inr (PTuple (xs @ ys))"
| "py_add (PStr s) (PStr t) = Inr (PStr (s @ t))"
| "py_add (PInt i) (PInt j) = Inr (PInt (i + j))"
| "py_add v w = Inl TypeError"

section \<open>The helpers\<close>

text \<open>\<^verbatim>\<open>_cols_normalize\<close> (lines 15-20).\<close>

fun cols_normalize :: "pyval \<Rightarrow> pyval" where
  "cols_normalize PNone = PList []"
| "cols_normalize (PStr s) = PList [PStr s]"
| "cols_normalize cols = cols"

text \<open>
  \<^verbatim>\<open>_check_no_interleaving_cols\<close> (lines 23-34). The union of the three sets is the
  duplicate-free list of the three concatenated.
\<close>

definition check_no_interleaving_cols :: "pyval \<Rightarrow> pyval \<Rightarrow> pyval \<Rightarrow> error + bool" where
  "check_no_interleaving_cols normal_cols cube_cols rollup_cols =
     (case py_set (cols_normalize normal_cols) of
        Inl e \<Rightarrow> Inl e
      | Inr normal_set \<Rightarrow>
     (case py_set (cols_normalize cube_cols) of
        Inl e \<Rightarrow> Inl e
      | Inr cube_set \<Rightarrow>
     (case py_set (cols_normalize rollup_cols) of
        Inl e \<Rightarrow> Inl e
      | Inr rollup_set \<Rightarrow>
          (let all_cols = remdups (normal_set @ cube_set @ rollup_set);
               all_lengths = length normal_set + length cube_set + length rollup_set
           in Inr (length all_cols = all_lengths)))))"

text \<open>
  \<^verbatim>\<open>itertools.combinations(x, r)\<close>: the \<open>r\<close>-element subsequences of \<open>x\<close>, in
  lexicographic order of the positions chosen.
\<close>

fun combinations :: "'a list \<Rightarrow> nat \<Rightarrow> 'a list list" where
  "combinations xs 0 = [[]]"
| "combinations [] (Suc r) = []"
| "combinations (x # xs) (Suc r) = map ((#) x) (combinations xs r) @ combinations xs (Suc r)"

text \<open>\<^verbatim>\<open>_get_cube_combinations\<close> (lines 37-42).\<close>

definition get_cube_combinations :: "'a list \<Rightarrow> 'a list list" where
  "get_cube_combinations x = concat (map (\<lambda>comb_len. combinations x comb_len) [0 ..< length x + 1])"

text \<open>\<^verbatim>\<open>_get_rollup_combinations\<close> (lines 45-50).\<close>

definition get_rollup_combinations :: "'a list \<Rightarrow> 'a list list" where
  "get_rollup_combinations x = map (\<lambda>i. take i x) [0 ..< length x + 1]"

text \<open>
  \<^verbatim>\<open>_get_grouping_filling\<close> (lines 53-59). Only a dict has a \<open>get\<close>; \<open>dict.get\<close>
  raises TypeError on an unhashable key, and the bare \<open>except\<close> turns every failure
  into the fill specification itself.
\<close>

fun get_grouping_filling :: "pyval \<Rightarrow> pyval \<Rightarrow> pyval" where
  "get_grouping_filling col_name PNone = PNone"
| "get_grouping_filling col_name (PDict kvs) =
     (if hashable col_name
      then (case map_of kvs col_name of Some v \<Rightarrow> v | None \<Rightarrow> PNone)
      else PDict kvs)"
| "get_grouping_filling col_name filling = filling"

section \<open>Tables and the aggregation engine\<close>

text \<open>
  A data frame: the names of the index levels (empty for a positional index), the
  column labels in order, and the rows, each an association list from label to cell.
  The null marker of a cell is \<open>PNone\<close>.
\<close>

type_synonym row = "(pyval \<times> pyval) list"

record table =
  index_names :: "pyval list"
  columns :: "pyval list"
  rows :: "row list"

datatype dtype = IntDtype | FloatDtype | ObjectDtype

fun is_integer_dtype :: "dtype \<Rightarrow> bool" where
  "is_integer_dtype IntDtype = True"
| "is_integer_dtype d = False"

text \<open>
  What the code leaves to the Python runtime and to pandas is a parameter of the model:
  the order in which a set is iterated (\<open>set_order\<close>: the positions of its elements
  in the order of iteration), the reduction an aggregation function computes on the
  cells of one column, the dtype of a column, the two coercions of a filled cell, and
  the orders in which \<open>sort_values\<close> (and the group keys of \<open>groupby\<close>) and
  \<open>sort_index\<close> put a list of keys (the positions of the keys in sorted order; how
  equal keys are placed is the engine's choice).
\<close>

record runtime =
  set_order :: "pyval list \<Rightarrow> nat list"
  reduce :: "pyval \<Rightarrow> pyval list \<Rightarrow> error + pyval"
  dtype_of :: "pyval list \<Rightarrow> dtype"
  to_numeric :: "pyval \<Rightarrow> error + pyval"
  astype :: "dtype \<Rightarrow> pyval \<Rightarrow> error + pyval"
  sort_order :: "pyval list list \<Rightarrow> nat list"
  index_order :: "pyval list list \<Rightarrow> nat list"

text \<open>
  A list in the order of the positions \<open>p\<close>. Iterating and sorting yield every element
  once: positions out of range or repeated are left out, and elements \<open>p\<close> does not
  place follow in their own order, so that the result is a permutation for every \<open>p\<close>.
\<close>

definition positions :: "nat list \<Rightarrow> nat \<Rightarrow> nat list" where
  "positions p n =
     (let q = remdups (filter (\<lambda>i. i < n) p)
      in q @ filter (\<lambda>i. i \<notin> set q) [0 ..< n])"

definition reorder :: "nat list \<Rightarrow> 'a list \<Rightarrow> 'a list" where
  "reorder p xs = map (\<lambda>i. xs ! i) (positions p (length xs))"

definition bind_err :: "error + 'a \<Rightarrow> ('a \<Rightarrow> error + 'b) \<Rightarrow> error + 'b" where
  "bind_err m f = (case m of Inl e \<Rightarrow> Inl e | Inr x \<Rightarrow> f x)"

text \<open>A loop that collects one result per element and stops at the first exception.\<close>

fun mapM_err :: "('a \<Rightarrow> error + 'b) \<Rightarrow> 'a list \<Rightarrow> error + 'b list" where
  "mapM_err f [] = Inr []"
| "mapM_err f (x # xs) =
     (case f x of
        Inl e \<Rightarrow> Inl e
      | Inr y \<Rightarrow> (case mapM_err f xs of Inl e \<Rightarrow> Inl e | Inr ys \<Rightarrow> Inr (y # ys)))"

text \<open>A loop that updates one value per element and stops at the first exception.\<close>

fun foldM_err :: "('a \<Rightarrow> 'b \<Rightarrow> error + 'b) \<Rightarrow> 'a list \<Rightarrow> 'b \<Rightarrow> error + 'b" where
  "foldM_err f [] a = Inr a"
| "foldM_err f (x # xs) a = (case f x a of Inl e \<Rightarrow> Inl e | Inr b \<Rightarrow> foldM_err f xs b)"

definition cell :: "row \<Rightarrow> pyval \<Rightarrow> pyval" where
  "cell r c = (case map_of r c of Some v \<Rightarrow> v | None \<Rightarrow> PNone)"

definition column_values :: "table \<Rightarrow> pyval \<Rightarrow> pyval list" where
  "column_values t c = map (\<lambda>r. cell r c) (rows t)"

definition row_key :: "pyval list \<Rightarrow> row \<Rightarrow> pyval list" where
  "row_key cols r = map (cell r) cols"

fun set_cell :: "pyval \<Rightarrow> pyval \<Rightarrow> row \<Rightarrow> row" where
  "set_cell c v [] = [(c, v)]"
| "set_cell c v (kv # r) = (if fst kv = c then (c, v) # r else kv # set_cell c v r)"

text \<open>
  \<^verbatim>\<open>df.agg(agg).to_frame().T\<close> (line 145): one row, one cell per key of the mapping,
  the reduction of that whole column. For an empty mapping \<open>df.agg\<close> returns a frame,
  which has no \<open>to_frame\<close>.
\<close>

definition df_agg :: "runtime \<Rightarrow> table \<Rightarrow> (pyval \<times> pyval) list \<Rightarrow> error + table" where
  "df_agg rt df agg =
     (if agg = [] then Inl AttributeError
      else if \<not> list_all (\<lambda>c. c \<in> set (columns df)) (map fst agg) then Inl KeyError
      else case mapM_err (\<lambda>(c, f). reduce rt f (column_values df c)) agg of
             Inl e \<Rightarrow> Inl e
           | Inr vs \<Rightarrow> Inr \<lparr>index_names = [], columns = map fst agg,
                           rows = [zip (map fst agg) vs]\<rparr>)"

text \<open>
  The group keys of \<^verbatim>\<open>df.groupby(cols)\<close>: the distinct combinations of the cells of
  \<open>cols\<close>, without those holding a null (pandas drops them: \<open>dropna=True\<close>), sorted.
\<close>

definition group_keys :: "runtime \<Rightarrow> table \<Rightarrow> pyval list \<Rightarrow> pyval list list" where
  "group_keys rt df cols =
     (let ks = remdups (filter (\<lambda>k. PNone \<notin> set k) (map (row_key cols) (rows df)))
      in reorder (sort_order rt ks) ks)"

text \<open>
  \<^verbatim>\<open>df.groupby(groupby_cols, as_index=False).agg(agg)\<close> (lines 147-148): one row per
  group key, holding the key's cells (for the grouping columns the mapping does not
  name) and the reduction of each column of the mapping over the rows of the group.
\<close>

definition groupby_agg ::
  "runtime \<Rightarrow> table \<Rightarrow> pyval list \<Rightarrow> (pyval \<times> pyval) list \<Rightarrow> error + table" where
  "groupby_agg rt df groupby_cols agg =
     (if \<not> list_all (\<lambda>c. c \<in> set (columns df)) (groupby_cols @ map fst agg) then Inl KeyError
      else case mapM_err
                  (\<lambda>k. case mapM_err
                               (\<lambda>(c, f). reduce rt f
                                  (map (\<lambda>r. cell r c)
                                     (filter (\<lambda>r. row_key groupby_cols r = k) (rows df))))
                               agg of
                          Inl e \<Rightarrow> Inl e
                        | Inr vs \<Rightarrow>
                            Inr (filter (\<lambda>kv. fst kv \<notin> set (map fst agg)) (zip groupby_cols k)
                                 @ zip (map fst agg) vs))
                  (group_keys rt df groupby_cols) of
             Inl e \<Rightarrow> Inl e
           | Inr rs \<Rightarrow>
               Inr \<lparr>index_names = [],
                    columns = filter (\<lambda>c. c \<notin> set (map fst agg)) groupby_cols @ map fst agg,
                    rows = rs\<rparr>)"

text \<open>
  The cells that \<^verbatim>\<open>single_result[col] = value\<close> (line 157) writes into a frame of
  \<open>n\<close> rows: a list or a tuple is taken element by element and must have \<open>n\<close>
  elements, a dict is aligned with the positions of the rows, any other value is
  written into every row.
\<close>

fun fill_cells :: "pyval \<Rightarrow> nat \<Rightarrow> error + pyval list" where
  "fill_cells (PList vs) n =
     (if length vs = n then Inr vs
      else Inl (ValueError ''Length of values does not match length of index''))"
| "fill_cells (PTuple vs) n =
     (if length vs = n then Inr vs
      else Inl (ValueError ''Length of values does not match length of index''))"
| "fill_cells (PDict kvs) n =
     Inr (map (\<lambda>i. case map_of kvs (PInt (int i)) of Some v \<Rightarrow> v | None \<Rightarrow> PNone) [0 ..< n])"
| "fill_cells v n = Inr (replicate n v)"

text \<open>
  The coercion of one cell of the filled column (lines 159-170): \<open>pd.to_numeric\<close>
  when the fill value is \<open>None\<close> and the original column is integral, \<open>astype\<close> to
  the original dtype otherwise.
\<close>

definition coerce_fill :: "runtime \<Rightarrow> table \<Rightarrow> pyval \<Rightarrow> pyval \<Rightarrow> pyval \<Rightarrow> error + pyval" where
  "coerce_fill rt df col dim_value_to_fill v =
     (let original_dtype = dtype_of rt (column_values df col)
      in if is_integer_dtype original_dtype \<and> dim_value_to_fill = PNone
         then to_numeric rt v
         else astype rt original_dtype v)"

text \<open>
  The body of the inner loop (lines 154-170): the column is set to the fill value, the
  original column is looked up, and every cell of the new column is coerced.
\<close>

definition fill_column ::
  "runtime \<Rightarrow> table \<Rightarrow> pyval \<Rightarrow> pyval \<Rightarrow> table \<Rightarrow> error + table" where
  "fill_column rt df fill_grouping single_remaining_col single_result =
     (let dim_value_to_fill = get_grouping_filling single_remaining_col fill_grouping
      in case fill_cells dim_value_to_fill (length (rows single_result)) of
           Inl e \<Rightarrow> Inl e
         | Inr cells \<Rightarrow>
             if single_remaining_col \<notin> set (columns df) then Inl KeyError
             else case mapM_err (coerce_fill rt df single_remaining_col dim_value_to_fill) cells of
                    Inl e \<Rightarrow> Inl e
                  | Inr vs \<Rightarrow>
                      Inr (single_result
                            \<lparr>columns := (if single_remaining_col \<in> set (columns single_result)
                                         then columns single_result
                                         else columns single_result @ [single_remaining_col]),
                             rows := map (\<lambda>(r, v). set_cell single_remaining_col v r)
                                       (zip (rows single_result) vs)\<rparr>))"

text \<open>\<^verbatim>\<open>single_result[result_cols]\<close> (line 172).\<close>

definition select_columns :: "table \<Rightarrow> pyval list \<Rightarrow> error + table" where
  "select_columns t cols =
     (if \<not> list_all (\<lambda>c. c \<in> set (columns t)) cols then Inl KeyError
      else Inr (t\<lparr>columns := cols, rows := map (\<lambda>r. map (\<lambda>c. (c, cell r c)) cols) (rows t)\<rparr>))"

text \<open>
  \<^verbatim>\<open>pd.concat(dfs, ignore_index=True)\<close> (lines 177-179), on frames that all have the
  same columns, as the ones the loop collects do.
\<close>

definition concat_tables :: "table list \<Rightarrow> error + table" where
  "concat_tables ts =
     (case ts of
        [] \<Rightarrow> Inl (ValueError ''No objects to concatenate'')
      | t # _ \<Rightarrow> Inr \<lparr>index_names = [], columns = columns t, rows = concat (map rows ts)\<rparr>)"

text \<open>
  \<^verbatim>\<open>sort_values(by)\<close>: a label of \<open>by\<close> that is no column is a KeyError, one that
  names two columns a ValueError; the rows come in the engine's order of their keys.
  An empty \<open>by\<close> sorts nothing.
\<close>

definition sort_values :: "runtime \<Rightarrow> pyval list \<Rightarrow> table \<Rightarrow> error + table" where
  "sort_values rt by t =
     (if \<not> list_all (\<lambda>c. c \<in> set (columns t)) by then Inl KeyError
      else if \<not> list_all (\<lambda>c. count_list (columns t) c \<le> 1) by
      then Inl (ValueError ''The column label is not unique'')
      else if by = [] then Inr t
      else Inr (t\<lparr>rows := reorder (sort_order rt (map (row_key by) (rows t))) (rows t)\<rparr>))"

text \<open>\<^verbatim>\<open>reset_index(drop=True)\<close>: the index is positional again.\<close>

definition reset_index_drop :: "table \<Rightarrow> table" where
  "reset_index_drop t = t\<lparr>index_names := []\<rparr>"

text \<open>
  \<^verbatim>\<open>set_index(keys)\<close>: the columns \<open>keys\<close> become the levels of the index; their
  cells stay in the rows. pandas refuses an empty list of keys.
\<close>

definition set_index :: "pyval list \<Rightarrow> table \<Rightarrow> error + table" where
  "set_index keys t =
     (if keys = [] then Inl (ValueError ''Must pass non-zero number of levels/codes'')
      else if \<not> list_all (\<lambda>c. c \<in> set (columns t)) keys then Inl KeyError
      else Inr (t\<lparr>index_names := keys, columns := filter (\<lambda>c. c \<notin> set keys) (columns t)\<rparr>))"

definition sort_index :: "runtime \<Rightarrow> table \<Rightarrow> table" where
  "sort_index rt t =
     t\<lparr>rows := reorder (index_order rt (map (row_key (index_names t)) (rows t))) (rows t)\<rparr>"

section \<open>The grouping driver\<close>

text \<open>
  What lines 105-128 of \<^verbatim>\<open>cubinggroupby\<close> compute before the loop: the three
  normalized column lists, their concatenation, the aggregation mapping (a dict keeps
  the order of insertion), the value columns and the columns of the result.
\<close>

record resolved =
  normal_cols :: "pyval list"
  cube_cols :: "pyval list"
  rollup_cols :: "pyval list"
  all_groupby_cols :: "pyval list"
  agg :: "(pyval \<times> pyval) list"
  value_cols :: "pyval list"
  result_cols :: "pyval list"

text \<open>
  Lines 117-125: the value columns and the mapping. With a reduction name, the value
  columns are listed from a set difference, in the iteration order of that set.
\<close>

definition resolve_agg ::
  "runtime \<Rightarrow> table \<Rightarrow> pyval \<Rightarrow> pyval \<Rightarrow> error + (pyval list \<times> (pyval \<times> pyval) list)" where
  "resolve_agg rt df all_groupby agg_arg =
     (if is_str agg_arg then
        (case py_set all_groupby of
           Inl e \<Rightarrow> Inl e
         | Inr groupby_set \<Rightarrow>
             (let difference = filter (\<lambda>x. x \<notin> set groupby_set) (remdups (columns df));
                  value_cols = reorder (set_order rt difference) difference
              in Inr (value_cols, map (\<lambda>x. (x, agg_arg)) value_cols)))
      else (case agg_arg of
              PDict kvs \<Rightarrow> Inr (map fst kvs, kvs)
            | _ \<Rightarrow> Inl (ValueError ''the agg parameter should be only str or dict'')))"

text \<open>
  Lines 105-128. The concatenations of lines 114 and 128 are Python's \<open>+\<close>: once
  line 128 has added the list of value columns, all three specifications are lists.
\<close>

definition cubinggroupby_resolve ::
  "runtime \<Rightarrow> table \<Rightarrow> pyval \<Rightarrow> pyval \<Rightarrow> pyval \<Rightarrow> pyval \<Rightarrow> error + resolved" where
  "cubinggroupby_resolve rt df normal_arg cube_arg rollup_arg agg_arg =
     (let normal = cols_normalize normal_arg;
          cube = cols_normalize cube_arg;
          rollup = cols_normalize rollup_arg
      in case check_no_interleaving_cols normal cube rollup of
           Inl e \<Rightarrow> Inl e
         | Inr ok \<Rightarrow>
             if \<not> ok then Inl (ValueError ''the columns to be grouped by should be different'')
             else
               (case bind_err (py_add normal cube) (\<lambda>x. py_add x rollup) of
                  Inl e \<Rightarrow> Inl e
                | Inr all_groupby \<Rightarrow>
                    (case resolve_agg rt df all_groupby agg_arg of
                       Inl e \<Rightarrow> Inl e
                     | Inr (vcols, agg_map) \<Rightarrow>
                         (case py_add all_groupby (PList vcols) of
                            Inl e \<Rightarrow> Inl e
                          | Inr res \<Rightarrow>
                              (case (normal, cube, rollup, all_groupby, res) of
                                 (PList n, PList c, PList r, PList g, PList rc) \<Rightarrow>
                                   Inr \<lparr>normal_cols = n, cube_cols = c, rollup_cols = r,
                                        all_groupby_cols = g, agg = agg_map,
                                        value_cols = vcols, result_cols = rc\<rparr>
                               | _ \<Rightarrow> Inl TypeError)))))"

text \<open>
  The grouping sets in the order of the two nested loops (lines 130-138): every cube
  combination with every rollup combination.
\<close>

definition grouping_sets :: "resolved \<Rightarrow> (pyval list \<times> pyval list) list" where
  "grouping_sets cfg =
     List.product (get_cube_combinations (cube_cols cfg))
                  (get_rollup_combinations (rollup_cols cfg))"

text \<open>One pass of the loop (lines 137-172).\<close>

definition single_result ::
  "runtime \<Rightarrow> table \<Rightarrow> resolved \<Rightarrow> pyval \<Rightarrow> pyval list \<times> pyval list \<Rightarrow> error + table" where
  "single_result rt df cfg fill_grouping comb =
     (let groupby_cols = normal_cols cfg @ fst comb @ snd comb;
          difference = filter (\<lambda>x. x \<notin> set groupby_cols) (remdups (all_groupby_cols cfg));
          remaining_cols = reorder (set_order rt difference) difference
      in bind_err
           (if groupby_cols = [] then df_agg rt df (agg cfg)
            else groupby_agg rt df groupby_cols (agg cfg))
           (\<lambda>aggregated.
              bind_err (foldM_err (fill_column rt df fill_grouping) remaining_cols aggregated)
                (\<lambda>filled. select_columns filled (result_cols cfg))))"

text \<open>\<^verbatim>\<open>cubinggroupby\<close> (lines 62-186).\<close>

definition cubinggroupby ::
  "runtime \<Rightarrow> table \<Rightarrow> pyval \<Rightarrow> pyval \<Rightarrow> pyval \<Rightarrow> pyval \<Rightarrow> pyval \<Rightarrow> bool \<Rightarrow> error + table" where
  "cubinggroupby rt df normal_arg cube_arg rollup_arg agg_arg fill_grouping as_index =
     bind_err (cubinggroupby_resolve rt df normal_arg cube_arg rollup_arg agg_arg)
       (\<lambda>cfg.
          bind_err (mapM_err (single_result rt df cfg fill_grouping) (grouping_sets cfg))
            (\<lambda>comb_result_dfs.
               bind_err (concat_tables comb_result_dfs)
                 (\<lambda>unioned.
                    bind_err (sort_values rt (all_groupby_cols cfg) unioned)
                      (\<lambda>sorted_result.
                         let unioned_result = reset_index_drop sorted_result
                         in if as_index
                            then bind_err (set_index (all_groupby_cols cfg) unioned_result)
                                   (\<lambda>indexed. Inr (sort_index rt indexed))
                            else Inr unioned_result))))"

section \<open>Vocabulary of the properties\<close>

text \<open>
  A column specification as the documentation describes it: none, one name, or a list
  of names (a name is hashable).
\<close>

definition is_colspec :: "pyval \<Rightarrow> bool" where
  "is_colspec v =
     (case v of PNone \<Rightarrow> True | PStr s \<Rightarrow> True | PList xs \<Rightarrow> list_all hashable xs | _ \<Rightarrow> False)"

text \<open>
  The columns a specification stands for, in the words of the specification: none for
  an absent one, the one column for a single name, the listed columns for a list.
\<close>

fun spec_cols :: "pyval \<Rightarrow> pyval list" where
  "spec_cols (PStr s) = [PStr s]"
| "spec_cols (PList xs) = xs"
| "spec_cols v = []"

definition col_set :: "pyval \<Rightarrow> pyval set" where
  "col_set v = set (spec_cols v)"

text \<open>A value that a column assignment writes into every row as it is.\<close>

fun is_scalar :: "pyval \<Rightarrow> bool" where
  "is_scalar (PList vs) = False"
| "is_scalar (PTuple vs) = False"
| "is_scalar (PDict kvs) = False"
| "is_scalar v = True"

text \<open>
  The aggregation mapping in the words of the specification: a single reduction name
  stands for that reduction on every column of the table that is no grouping column,
  an explicit mapping for itself.
\<close>

definition spec_agg :: "table \<Rightarrow> pyval \<Rightarrow> pyval \<Rightarrow> pyval \<Rightarrow> pyval \<Rightarrow> pyval \<Rightarrow> pyval option" where
  "spec_agg df a b c agg_arg v =
     (case agg_arg of
        PStr s \<Rightarrow>
          (if v \<in> set (columns df) \<and> v \<notin> set (spec_cols a @ spec_cols b @ spec_cols c)
           then Some (PStr s) else None)
      | PDict kvs \<Rightarrow> map_of kvs v
      | _ \<Rightarrow> None)"

text \<open>
  The fill value of a column in the words of the specification: the value the mapping
  gives for the column, or the null marker when it gives none; a value that is no
  mapping, for every column; the null marker when there is no fill specification.
\<close>

fun spec_fill :: "pyval \<Rightarrow> pyval \<Rightarrow> pyval" where
  "spec_fill col PNone = PNone"
| "spec_fill col (PDict kvs) = (case map_of kvs col of Some v \<Rightarrow> v | None \<Rightarrow> PNone)"
| "spec_fill col v = v"

text \<open>
  What a folded column holds for the fill value \<open>s\<close>, in the words of the specification:
  the null marker as the engine's numeric conversion represents it when the original
  column is integral, and otherwise \<open>s\<close> coerced to the dtype of the original column.
\<close>

definition stored_fill :: "runtime \<Rightarrow> table \<Rightarrow> pyval \<Rightarrow> pyval \<Rightarrow> error + pyval" where
  "stored_fill rt df col s =
     (if s = PNone \<and> dtype_of rt (column_values df col) = IntDtype
      then to_numeric rt PNone
      else astype rt (dtype_of rt (column_values df col)) s)"

text \<open>
  The cells that filling the column \<open>c\<close> writes into a frame of \<open>n\<close> rows, or the
  exception it raises: what \<open>fill_column\<close> computes before it stores them.
\<close>

definition fill_values :: "runtime \<Rightarrow> table \<Rightarrow> pyval \<Rightarrow> pyval \<Rightarrow> nat \<Rightarrow> error + pyval list" where
  "fill_values rt df fill_grouping c n =
     (case fill_cells (get_grouping_filling c fill_grouping) n of
        Inl e \<Rightarrow> Inl e
      | Inr cells \<Rightarrow>
          if c \<notin> set (columns df) then Inl KeyError
          else mapM_err (coerce_fill rt df c (get_grouping_filling c fill_grouping)) cells)"

text \<open>The combinations of fewer than \<open>m\<close> elements, by increasing size.\<close>

definition cube_upto :: "'a list \<Rightarrow> nat \<Rightarrow> 'a list list" where
  "cube_upto x m = concat (map (combinations x) [0 ..< m])"

text \<open>
  The number of distinct combinations of the cells of \<open>cols\<close> over the rows of a table,
  1 for no columns at all: counting every combination, and counting the combinations
  without a null.
\<close>

definition distinct_combinations :: "table \<Rightarrow> pyval list \<Rightarrow> nat" where
  "distinct_combinations df cols =
     (if cols = [] then 1 else length (remdups (map (row_key cols) (rows df))))"

definition nonnull_combinations :: "table \<Rightarrow> pyval list \<Rightarrow> nat" where
  "nonnull_combinations df cols =
     (if cols = [] then 1
      else length (remdups (filter (\<lambda>k. PNone \<notin> set k) (map (row_key cols) (rows df)))))"

section \<open>A sample runtime and a sample table\<close>

text \<open>
  The examples below run the model on small tables, with a runtime that iterates a set
  in the order in which it was built, knows the reductions \<open>sum\<close> and \<open>count\<close>, keeps a filled cell
  as it is unless a non-integer goes into an integer column, and orders integers and
  strings ascending with the null marker last.
\<close>

fun is_int :: "pyval \<Rightarrow> bool" where
  "is_int (PInt i) = True"
| "is_int v = False"

fun int_of :: "pyval \<Rightarrow> int" where
  "int_of (PInt i) = i"
| "int_of v = 0"

fun str_le :: "string \<Rightarrow> string \<Rightarrow> bool" where
  "str_le [] t = True"
| "str_le (a # s) [] = False"
| "str_le (a # s) (b # t) =
     (if (of_char a :: nat) < of_char b then True
      else if (of_char b :: nat) < of_char a then False
      else str_le s t)"

text \<open>Ascending lexicographic order of two keys, cell by cell, and a stable insertion sort.\<close>

fun key_le :: "(pyval \<Rightarrow> pyval \<Rightarrow> bool) \<Rightarrow> pyval list \<Rightarrow> pyval list \<Rightarrow> bool" where
  "key_le le [] ys = True"
| "key_le le (x # xs) [] = False"
| "key_le le (x # xs) (y # ys) =
     (if le x y \<and> \<not> le y x then True
      else if le y x \<and> \<not> le x y then False
      else key_le le xs ys)"

fun insort_by :: "('a \<Rightarrow> 'a \<Rightarrow> bool) \<Rightarrow> 'a \<Rightarrow> 'a list \<Rightarrow> 'a list" where
  "insort_by le x [] = [x]"
| "insort_by le x (y # ys) = (if le x y then x # y # ys else y # insort_by le x ys)"

definition sort_by :: "('a \<Rightarrow> 'a \<Rightarrow> bool) \<Rightarrow> 'a list \<Rightarrow> 'a list" where
  "sort_by le xs = foldr (insort_by le) xs []"

fun sample_le :: "pyval \<Rightarrow> pyval \<Rightarrow> bool" where
  "sample_le x PNone = True"
| "sample_le PNone y = False"
| "sample_le (PInt i) (PInt j) = (i \<le> j)"
| "sample_le (PInt i) y = True"
| "sample_le (PStr s) (PStr t) = str_le s t"
| "sample_le x y = False"

definition sample_reduce :: "pyval \<Rightarrow> pyval list \<Rightarrow> error + pyval" where
  "sample_reduce f vs =
     (if f = PStr ''sum'' then Inr (PInt (sum_list (map int_of vs)))
      else if f = PStr ''count'' then Inr (PInt (int (length (filter (\<lambda>v. v \<noteq> PNone) vs))))
      else Inl (EngineError ''unknown reduction''))"

definition sample_sort :: "pyval list list \<Rightarrow> nat list" where
  "sample_sort ks = sort_by (\<lambda>i j. key_le sample_le (ks ! i) (ks ! j)) [0 ..< length ks]"

definition sample_runtime :: runtime where
  "sample_runtime =
     \<lparr>set_order = (\<lambda>xs. [0 ..< length xs]),
      reduce = sample_reduce,
      dtype_of = (\<lambda>vs. if list_all is_int vs then IntDtype else ObjectDtype),
      to_numeric = (\<lambda>v. Inr v),
      astype = (\<lambda>d v. if d = IntDtype \<and> \<not> is_int v
                        then Inl (ValueError ''invalid literal for int'') else Inr v),
      sort_order = sample_sort,
      index_order = sample_sort\<rparr>"

text \<open>The same runtime, iterating every set in the reverse order.\<close>

definition reversed_runtime :: runtime where
  "reversed_runtime = sample_runtime\<lparr>set_order := (\<lambda>xs. rev [0 ..< length xs])\<rparr>"

text \<open>The same runtime, with an engine whose reductions all fail.\<close>

definition failing_runtime :: runtime where
  "failing_runtime = sample_runtime\<lparr>reduce := (\<lambda>f vs. Inl (EngineError ''reduction called''))\<rparr>"

text \<open>Three rows; the cell of column \<open>a\<close> is null in the last one.\<close>

definition sample_df :: table where
  "sample_df =
     \<lparr>index_names = [],
      columns = [PStr ''a'', PStr ''v'', PStr ''w''],
      rows = [[(PStr ''a'', PStr ''x''), (PStr ''v'', PInt 10), (PStr ''w'', PInt 100)],
              [(PStr ''a'', PStr ''y''), (PStr ''v'', PInt 20), (PStr ''w'', PInt 200)],
              [(PStr ''a'', PNone), (PStr ''v'', PInt 30), (PStr ''w'', PInt 300)]]\<rparr>"

text \<open>One row.\<close>

definition single_df :: table where
  "single_df =
     \<lparr>index_names = [],
      columns = [PStr ''a'', PStr ''v''],
      rows = [[(PStr ''a'', PStr ''x''), (PStr ''v'', PInt 10)]]\<rparr>"

text \<open>The table of the repository's test (\<^verbatim>\<open>test_cubinggroupby\<close>), empty fields null.\<close>

definition test_row :: "pyval \<Rightarrow> pyval \<Rightarrow> int \<Rightarrow> string \<Rightarrow> int \<Rightarrow> row" where
  "test_row category area year product price =
     [(PStr ''category'', category), (PStr ''area'', area), (PStr ''year'', PInt year),
      (PStr ''product'', PStr product), (PStr ''price'', PInt price)]"

definition test_df :: table where
  "test_df =
     \<lparr>index_names = [],
      columns = [PStr ''category'', PStr ''area'', PStr ''year'', PStr ''product'', PStr ''price''],
      rows = [test_row (PStr ''cat1'') (PStr ''area1'') 1 ''prod1'' 10,
              test_row (PStr ''cat1'') (PStr ''area1'') 2 ''prod1'' 11,
              test_row (PStr ''cat1'') (PStr ''area2'') 3 ''prod2'' 12,
              test_row (PStr ''cat2'') (PStr ''area1'') 1 ''prod1'' 13,
              test_row (PStr ''cat2'') (PStr ''area2'') 3 ''prod3'' 14,
              test_row (PStr ''cat2'') (PStr ''area1'') 2 ''prod2'' 15,
              test_row PNone (PStr ''area1'') 4 ''prod3'' 16,
              test_row PNone (PStr ''area2'') 2 ''prod1'' 17,
              test_row (PStr ''cat2'') PNone 3 ''prod4'' 18]\<rparr>"

section \<open>Properties of the helpers\<close>

subsection \<open>The combination generators\<close>

lemma length_combinations: "length (combinations xs r) = length xs choose r"
  by (induction xs r rule: combinations.induct) simp_all

lemma combinations_subseq: "t \<in> set (combinations xs r) \<Longrightarrow> length t = r \<and> subseq t xs"
  by (induction xs r arbitrary: t rule: combinations.induct) auto

lemma combinations_too_long: "length xs < r \<Longrightarrow> combinations xs r = []"
  by (induction xs r rule: combinations.induct) simp_all

lemma combinations_full: "combinations xs (length xs) = [xs]"
  by (induction xs) (simp_all add: combinations_too_long)

lemma cube_upto_Suc: "cube_upto x (Suc m) = cube_upto x m @ combinations x m"
  by (simp add: cube_upto_def)

lemma cube_upto_length_lt: "t \<in> set (cube_upto x m) \<Longrightarrow> length t < m"
  by (auto simp: cube_upto_def dest: combinations_subseq)

lemma cube_upto_subseq: "t \<in> set (cube_upto x m) \<Longrightarrow> subseq t x"
  by (auto simp: cube_upto_def dest: combinations_subseq)

lemma cube_upto_sorted: "sorted_wrt (\<lambda>s t. length s \<le> length t) (cube_upto x m)"
proof (induction m)
  case 0
  show ?case by (simp add: cube_upto_def)
next
  case (Suc m)
  have tr: "sorted_wrt (\<lambda>s t. True) ys" for ys :: "'a list list"
    by (induction ys) simp_all
  have blk: "sorted_wrt (\<lambda>s t. length s \<le> length t) (combinations x m)"
    by (rule sorted_wrt_mono_rel[OF _ tr]) (simp add: combinations_subseq)
  show ?case
    using Suc blk
    by (auto simp: cube_upto_Suc sorted_wrt_append dest!: cube_upto_length_lt combinations_subseq)
qed

lemma length_cube_upto: "length (cube_upto x m) = (\<Sum>r<m. length x choose r)"
  by (induction m) (simp_all add: cube_upto_def length_combinations)

lemma cube_is_upto: "get_cube_combinations x = cube_upto x (Suc (length x))"
  by (simp add: get_cube_combinations_def cube_upto_def)

lemma length_get_cube_combinations: "length (get_cube_combinations x) = 2 ^ length x"
  by (simp only: cube_is_upto length_cube_upto lessThan_Suc_atMost choose_row_sum)

lemma hd_get_cube_combinations: "hd (get_cube_combinations x) = []"
  by (simp add: get_cube_combinations_def upt_rec)

lemma mset_combinations:
  "mset (combinations xs r) = mset (filter (\<lambda>t. length t = r) (subseqs xs))"
proof (induction xs r rule: combinations.induct)
  case (1 xs)
  show ?case by (induction xs) (auto simp: Let_def filter_map o_def)
next
  case (2 r)
  show ?case by simp
next
  case (3 x xs r)
  then show ?case by (simp add: Let_def filter_map o_def)
qed

lemma sum_filter_length:
  "(\<forall>t\<in>set ys. length t < m) \<Longrightarrow> (\<Sum>r<m. mset (filter (\<lambda>t. length t = r) ys)) = mset ys"
proof (induction ys)
  case Nil
  show ?case by simp
next
  case (Cons y ys)
  have one: "(\<Sum>r<m. (if length y = r then {#y#} else {#})) = {#y#}"
    using Cons.prems by (simp add: sum.delta)
  have "(\<Sum>r<m. mset (filter (\<lambda>t. length t = r) (y # ys)))
      = (\<Sum>r<m. (if length y = r then {#y#} else {#}) + mset (filter (\<lambda>t. length t = r) ys))"
    by (rule sum.cong) auto
  also have "\<dots> = (\<Sum>r<m. (if length y = r then {#y#} else {#}))
                  + (\<Sum>r<m. mset (filter (\<lambda>t. length t = r) ys))"
    by (rule sum.distrib)
  also have "\<dots> = {#y#} + mset ys"
    using Cons one by simp
  finally show ?case by simp
qed

lemma mset_cube_upto: "mset (cube_upto x m) = (\<Sum>r<m. mset (combinations x r))"
  by (induction m) (simp_all add: cube_upto_def)

lemma length_subseqs_le: "t \<in> set (subseqs x) \<Longrightarrow> length t \<le> length x"
  by (simp add: list_emb_length)

lemma mset_get_cube_combinations: "mset (get_cube_combinations x) = mset (subseqs x)"
proof -
  have "\<forall>t\<in>set (subseqs x). length t < Suc (length x)"
    using length_subseqs_le[of _ x] by (auto simp: less_Suc_eq_le)
  then show ?thesis
    by (simp only: cube_is_upto mset_cube_upto mset_combinations sum_filter_length)
qed

text \<open>
  C8: on a sequence of length \<open>n\<close> the cube generator returns \<open>2 ^ n\<close> tuples, by
  increasing size, the empty tuple first and the whole sequence last; every tuple is a
  subsequence of the input in the original order, and the tuples are exactly the
  subsequences of the input. On the empty sequence it returns the single empty tuple.
\<close>

theorem get_cube_combinations_correct:
  "length (get_cube_combinations x) = 2 ^ length x
   \<and> sorted_wrt (\<lambda>s t. length s \<le> length t) (get_cube_combinations x)
   \<and> hd (get_cube_combinations x) = []
   \<and> last (get_cube_combinations x) = x
   \<and> (\<forall>t \<in> set (get_cube_combinations x). subseq t x)
   \<and> mset (get_cube_combinations x) = mset (subseqs x)
   \<and> get_cube_combinations ([] :: 'a list) = [[]]"
proof -
  have "last (get_cube_combinations x) = x"
    by (simp add: cube_is_upto cube_upto_Suc combinations_full)
  moreover have "\<forall>t \<in> set (get_cube_combinations x). subseq t x"
    by (simp only: cube_is_upto) (blast dest: cube_upto_subseq)
  moreover have "sorted_wrt (\<lambda>s t. length s \<le> length t) (get_cube_combinations x)"
    by (simp only: cube_is_upto cube_upto_sorted)
  moreover have "get_cube_combinations ([] :: 'a list) = [[]]"
    by (simp add: get_cube_combinations_def)
  ultimately show ?thesis
    by (simp add: length_get_cube_combinations hd_get_cube_combinations
        mset_get_cube_combinations)
qed

theorem get_cube_combinations_correct_witness:
  "get_cube_combinations [1, 2, 3 :: int]
     = [[], [1], [2], [3], [1, 2], [1, 3], [2, 3], [1, 2, 3]]
   \<and> length (get_cube_combinations [1, 2, 3 :: int]) = 2 ^ 3
   \<and> [1, 3] \<in> set (get_cube_combinations [1, 2, 3 :: int])
   \<and> subseq [1, 3] [1, 2, 3 :: int]"
proof -
  have ev: "get_cube_combinations [1, 2, 3 :: int]
     = [[], [1], [2], [3], [1, 2], [1, 3], [2, 3], [1, 2, 3]]"
    by code_simp
  show ?thesis
    using get_cube_combinations_correct[of "[1, 2, 3 :: int]"] ev by simp
qed

text \<open>The list the repository's test expects for four elements.\<close>

lemma get_cube_combinations_test:
  "get_cube_combinations [1, 2, 3, 4 :: int] =
     [[], [1], [2], [3], [4], [1, 2], [1, 3], [1, 4], [2, 3], [2, 4], [3, 4],
      [1, 2, 3], [1, 2, 4], [1, 3, 4], [2, 3, 4], [1, 2, 3, 4]]"
  by code_simp

text \<open>
  C9: on a sequence of length \<open>n\<close> the rollup generator returns \<open>n + 1\<close> tuples, the
  \<open>k\<close>-th being the first \<open>k\<close> elements, from the empty tuple to the whole sequence.
  On the empty sequence it returns the single empty tuple.
\<close>

theorem get_rollup_combinations_correct:
  "length (get_rollup_combinations x) = length x + 1
   \<and> (\<forall>k \<le> length x. get_rollup_combinations x ! k = take k x)
   \<and> hd (get_rollup_combinations x) = []
   \<and> last (get_rollup_combinations x) = x
   \<and> get_rollup_combinations ([] :: 'a list) = [[]]"
proof -
  have nth: "get_rollup_combinations x ! k = take k x" if "k \<le> length x" for k
  proof -
    from that have "k < length x + 1" by simp
    then have "map (\<lambda>i. take i x) [0 ..< length x + 1] ! k = take (0 + k) x"
      by (intro nth_map_upt) simp
    then show ?thesis by (simp only: get_rollup_combinations_def add_0)
  qed
  have "hd (get_rollup_combinations x) = []"
    by (simp add: get_rollup_combinations_def upt_rec)
  moreover have "last (get_rollup_combinations x) = x"
    by (simp add: get_rollup_combinations_def)
  ultimately show ?thesis
    using nth by (simp add: get_rollup_combinations_def)
qed

theorem get_rollup_combinations_correct_witness:
  "get_rollup_combinations [1, 2, 3, 4 :: int] = [[], [1], [1, 2], [1, 2, 3], [1, 2, 3, 4]]
   \<and> (2 :: nat) \<le> length [1, 2, 3, 4 :: int]
   \<and> get_rollup_combinations [1, 2, 3, 4 :: int] ! 2 = take 2 [1, 2, 3, 4]"
proof -
  have ev: "get_rollup_combinations [1, 2, 3, 4 :: int] = [[], [1], [1, 2], [1, 2, 3], [1, 2, 3, 4]]"
    by code_simp
  show ?thesis
    using get_rollup_combinations_correct[of "[1, 2, 3, 4 :: int]"] ev by simp
qed

subsection \<open>The column-spec normalizer\<close>

text \<open>
  C10: the normalizer is the identity on every argument that is neither \<open>None\<close> nor
  a string, a tuple or an integer included, so its result need not be a list; \<open>None\<close>
  becomes the empty list and a string a one-element list. It has no failing branch.
\<close>

theorem cols_normalize_identity:
  "(cols \<noteq> PNone \<and> \<not> is_str cols \<longrightarrow> cols_normalize cols = cols)
   \<and> cols_normalize PNone = PList []
   \<and> cols_normalize (PStr s) = PList [PStr s]
   \<and> cols_normalize (PTuple xs) = PTuple xs
   \<and> cols_normalize (PInt i) = PInt i"
  by (cases cols) simp_all

theorem cols_normalize_identity_witness:
  "PTuple [PStr ''a'', PStr ''b''] \<noteq> PNone \<and> \<not> is_str (PTuple [PStr ''a'', PStr ''b''])
   \<and> cols_normalize (PTuple [PStr ''a'', PStr ''b'']) = PTuple [PStr ''a'', PStr ''b'']"
  using cols_normalize_identity[of "PTuple [PStr ''a'', PStr ''b'']"]
  by simp

subsection \<open>The fill-value resolver\<close>

text \<open>
  C6: the resolver returns the null marker when there is no fill specification; for a
  mapping, the value mapped to the column name (a hashable value) or the null marker
  when the name is absent; and any other specification unchanged, for every column
  name. It has no failing branch.
\<close>

theorem get_grouping_filling_total:
  "get_grouping_filling col_name PNone = PNone
   \<and> (hashable col_name \<longrightarrow>
        get_grouping_filling col_name (PDict kvs) =
          (case map_of kvs col_name of Some v \<Rightarrow> v | None \<Rightarrow> PNone))
   \<and> (filling \<noteq> PNone \<and> \<not> is_dict filling \<longrightarrow> get_grouping_filling col_name filling = filling)"
  by (cases filling) simp_all

theorem get_grouping_filling_total_witness:
  "hashable (PStr ''area'')
   \<and> get_grouping_filling (PStr ''area'') (PDict [(PStr ''category'', PStr ''TOTAL'')]) = PNone
   \<and> get_grouping_filling (PStr ''category'') (PDict [(PStr ''category'', PStr ''TOTAL'')])
       = PStr ''TOTAL''
   \<and> PStr ''TOTAL'' \<noteq> PNone \<and> \<not> is_dict (PStr ''TOTAL'')
   \<and> get_grouping_filling (PStr ''area'') (PStr ''TOTAL'') = PStr ''TOTAL''"
  using get_grouping_filling_total[of "PStr ''area''" "[(PStr ''category'', PStr ''TOTAL'')]"
          "PStr ''TOTAL''"]
        get_grouping_filling_total[of "PStr ''category''"
          "[(PStr ''category'', PStr ''TOTAL'')]" "PStr ''TOTAL''"]
  by simp

subsection \<open>The overlap validator\<close>

lemma card_Un3_disjoint:
  assumes "finite A" "finite B" "finite C"
  shows "(card (A \<union> B \<union> C) = card A + card B + card C)
       = (A \<inter> B = {} \<and> A \<inter> C = {} \<and> B \<inter> C = {})"
proof -
  have 1: "card A + card B = card (A \<union> B) + card (A \<inter> B)"
    using assms by (intro card_Un_Int)
  have 2: "card (A \<union> B) + card C = card (A \<union> B \<union> C) + card ((A \<union> B) \<inter> C)"
    using assms by (intro card_Un_Int) auto
  have "(card (A \<union> B \<union> C) = card A + card B + card C)
      = (card (A \<inter> B) = 0 \<and> card ((A \<union> B) \<inter> C) = 0)"
    using 1 2 by linarith
  also have "\<dots> = (A \<inter> B = {} \<and> (A \<union> B) \<inter> C = {})"
    using assms by simp
  finally show ?thesis by blast
qed

lemma py_set_colspec:
  "is_colspec v \<Longrightarrow> py_set (cols_normalize v) = Inr (remdups (spec_cols v))"
  by (cases v) (simp_all add: is_colspec_def py_set_def)

lemma check_no_interleaving_cols_eq:
  assumes "is_colspec a" and "is_colspec b" and "is_colspec c"
  shows "check_no_interleaving_cols a b c =
           Inr (col_set a \<inter> col_set b = {} \<and> col_set a \<inter> col_set c = {}
                \<and> col_set b \<inter> col_set c = {})"
proof -
  define xs ys zs where "xs = spec_cols a" and "ys = spec_cols b" and "zs = spec_cols c"
  have xs: "py_set (cols_normalize a) = Inr (remdups xs)" "col_set a = set xs"
    using py_set_colspec[OF assms(1)] by (simp_all add: xs_def col_set_def)
  have ys: "py_set (cols_normalize b) = Inr (remdups ys)" "col_set b = set ys"
    using py_set_colspec[OF assms(2)] by (simp_all add: ys_def col_set_def)
  have zs: "py_set (cols_normalize c) = Inr (remdups zs)" "col_set c = set zs"
    using py_set_colspec[OF assms(3)] by (simp_all add: zs_def col_set_def)
  have c3: "(card (set xs \<union> set ys \<union> set zs) = card (set xs) + card (set ys) + card (set zs))
          = (set xs \<inter> set ys = {} \<and> set xs \<inter> set zs = {} \<and> set ys \<inter> set zs = {})"
    by (rule card_Un3_disjoint) simp_all
  have chk: "check_no_interleaving_cols a b c =
      Inr (card (set xs \<union> set ys \<union> set zs) = card (set xs) + card (set ys) + card (set zs))"
    unfolding check_no_interleaving_cols_def
    by (simp add: xs(1) ys(1) zs(1) length_remdups_card_conv Let_def Un_assoc)
  show ?thesis
    unfolding chk xs(2) ys(2) zs(2) using c3 by simp
qed

text \<open>
  C7: on three column specifications (none, one name, or a list of names) the validator
  returns a boolean, true exactly when the three sets of columns the specifications
  stand for are pairwise disjoint; and the identity it computes, the three sizes adding
  up to the size of the union, is equivalent to pairwise disjointness.
\<close>

theorem check_no_interleaving_cols_correct:
  assumes "is_colspec a" and "is_colspec b" and "is_colspec c"
  shows "check_no_interleaving_cols a b c =
           Inr (col_set a \<inter> col_set b = {} \<and> col_set a \<inter> col_set c = {}
                \<and> col_set b \<inter> col_set c = {})
       \<and> ((card (col_set a) + card (col_set b) + card (col_set c)
             = card (col_set a \<union> col_set b \<union> col_set c))
          = (col_set a \<inter> col_set b = {} \<and> col_set a \<inter> col_set c = {}
             \<and> col_set b \<inter> col_set c = {}))"
proof -
  have fin: "finite (col_set v)" for v
    by (simp add: col_set_def)
  have "(card (col_set a \<union> col_set b \<union> col_set c)
           = card (col_set a) + card (col_set b) + card (col_set c))
        = (col_set a \<inter> col_set b = {} \<and> col_set a \<inter> col_set c = {}
           \<and> col_set b \<inter> col_set c = {})"
    by (rule card_Un3_disjoint) (rule fin)+
  then show ?thesis
    using check_no_interleaving_cols_eq[OF assms] by (simp add: eq_commute)
qed

theorem check_no_interleaving_cols_correct_witness:
  "is_colspec (PStr ''a'') \<and> is_colspec PNone \<and> is_colspec (PList [PStr ''a'', PStr ''b''])
   \<and> check_no_interleaving_cols (PStr ''a'') PNone (PList [PStr ''a'', PStr ''b'']) = Inr False
   \<and> col_set (PStr ''a'') = {PStr ''a''}
   \<and> col_set PNone = {}
   \<and> col_set (PList [PStr ''a'', PStr ''b'']) = {PStr ''a'', PStr ''b''}
   \<and> check_no_interleaving_cols (PStr ''a'') PNone (PList [PStr ''b'']) = Inr True"
  using check_no_interleaving_cols_correct[of "PStr ''a''" PNone "PList [PStr ''a'', PStr ''b'']"]
    check_no_interleaving_cols_correct[of "PStr ''a''" PNone "PList [PStr ''b'']"]
  by (simp add: is_colspec_def col_set_def)

text \<open>The calls of the repository's test of the validator.\<close>

lemma check_no_interleaving_cols_test:
  "check_no_interleaving_cols (PList []) PNone (PList []) = Inr True"
  "check_no_interleaving_cols (PList [PInt 1, PInt 2]) (PList [PInt 3, PInt 4]) PNone = Inr True"
  "check_no_interleaving_cols (PList [PInt 1, PInt 2]) PNone (PList [PInt 5, PInt 6]) = Inr True"
  "check_no_interleaving_cols (PList [PInt 1, PInt 2]) (PList [PInt 1, PInt 4]) PNone = Inr False"
  "check_no_interleaving_cols (PList [PInt 1, PInt 2]) PNone (PList [PInt 2, PInt 4]) = Inr False"
  "check_no_interleaving_cols (PList [PInt 1, PInt 2]) (PList [PInt 3, PInt 4])
     (PList [PInt 5, PInt 6]) = Inr True"
  by (simp_all add: check_no_interleaving_cols_def py_set_def)

section \<open>Properties of the driver\<close>

subsection \<open>Resolution of the arguments\<close>

lemma py_add_PList:
  "py_add x y = Inr (PList zs) \<Longrightarrow> \<exists>xs ys. x = PList xs \<and> y = PList ys \<and> zs = xs @ ys"
  by (cases x; cases y) simp_all

lemma py_add_Inr_PList:
  "py_add x (PList ys) = Inr z \<Longrightarrow> \<exists>xs. x = PList xs \<and> z = PList (xs @ ys)"
  by (cases x) simp_all

lemma cubinggroupby_resolve_Inr:
  assumes "cubinggroupby_resolve rt df a b c agg_arg = Inr cfg"
  shows "cols_normalize a = PList (normal_cols cfg)
       \<and> cols_normalize b = PList (cube_cols cfg)
       \<and> cols_normalize c = PList (rollup_cols cfg)
       \<and> check_no_interleaving_cols (cols_normalize a) (cols_normalize b) (cols_normalize c)
           = Inr True
       \<and> all_groupby_cols cfg = normal_cols cfg @ cube_cols cfg @ rollup_cols cfg
       \<and> resolve_agg rt df (PList (all_groupby_cols cfg)) agg_arg = Inr (value_cols cfg, agg cfg)
       \<and> result_cols cfg = all_groupby_cols cfg @ value_cols cfg"
proof -
  from assms obtain ok where
    ok: "check_no_interleaving_cols (cols_normalize a) (cols_normalize b) (cols_normalize c) = Inr ok"
    by (auto simp: cubinggroupby_resolve_def Let_def split: sum.splits)
  with assms have ok': "ok"
    by (auto simp: cubinggroupby_resolve_def Let_def split: sum.splits if_splits)
  from assms ok ok' obtain g where
    g: "bind_err (py_add (cols_normalize a) (cols_normalize b)) (\<lambda>x. py_add x (cols_normalize c))
        = Inr g"
    by (auto simp: cubinggroupby_resolve_def Let_def split: sum.splits)
  from assms ok ok' g obtain vcols agg_map where
    ra: "resolve_agg rt df g agg_arg = Inr (vcols, agg_map)"
    by (auto simp: cubinggroupby_resolve_def Let_def split: sum.splits)
  from assms ok ok' g ra obtain res where res: "py_add g (PList vcols) = Inr res"
    by (auto simp: cubinggroupby_resolve_def Let_def split: sum.splits)
  from res obtain gl where gl: "g = PList gl" "res = PList (gl @ vcols)"
    using py_add_Inr_PList by blast
  from g gl obtain x where
    x: "py_add (cols_normalize a) (cols_normalize b) = Inr x"
       "py_add x (cols_normalize c) = Inr (PList gl)"
    by (auto simp: bind_err_def split: sum.splits)
  from x(2) obtain xl rl where xl: "x = PList xl" "cols_normalize c = PList rl" "gl = xl @ rl"
    using py_add_PList by blast
  from x(1) xl obtain nl cl where
    nl: "cols_normalize a = PList nl" "cols_normalize b = PList cl" "xl = nl @ cl"
    using py_add_PList by blast
  have "cfg = \<lparr>normal_cols = nl, cube_cols = cl, rollup_cols = rl, all_groupby_cols = gl,
               agg = agg_map, value_cols = vcols, result_cols = gl @ vcols\<rparr>"
    using assms ok ok' g ra res gl xl nl
    by (simp add: cubinggroupby_resolve_def Let_def)
  then show ?thesis
    using ok ok' ra gl xl nl by simp
qed

lemma cols_normalize_PList: "cols_normalize v = PList xs \<Longrightarrow> spec_cols v = xs"
  by (cases v) auto

lemma cubinggroupby_resolve_args:
  assumes "cubinggroupby_resolve rt df a b c agg_arg = Inr cfg"
  shows "normal_cols cfg = spec_cols a" and "cube_cols cfg = spec_cols b"
    and "rollup_cols cfg = spec_cols c"
    and "all_groupby_cols cfg = spec_cols a @ spec_cols b @ spec_cols c"
    and "result_cols cfg = all_groupby_cols cfg @ value_cols cfg"
proof -
  note r = cubinggroupby_resolve_Inr[OF assms]
  show n: "normal_cols cfg = spec_cols a"
    using r cols_normalize_PList[of a "normal_cols cfg"] by simp
  show c: "cube_cols cfg = spec_cols b"
    using r cols_normalize_PList[of b "cube_cols cfg"] by simp
  show l: "rollup_cols cfg = spec_cols c"
    using r cols_normalize_PList[of c "rollup_cols cfg"] by simp
  show "all_groupby_cols cfg = spec_cols a @ spec_cols b @ spec_cols c"
    using r n c l by simp
  show "result_cols cfg = all_groupby_cols cfg @ value_cols cfg"
    using r by blast
qed

lemma cols_normalize_colspec:
  "is_colspec v \<Longrightarrow> cols_normalize v = PList (spec_cols v) \<and> is_colspec (cols_normalize v)
     \<and> col_set (cols_normalize v) = col_set v"
  by (cases v) (simp_all add: is_colspec_def col_set_def)

lemma mset_positions: "mset (positions p n) = mset [0 ..< n]"
proof -
  define q where "q = remdups (filter (\<lambda>i. i < n) p)"
  have d: "distinct (q @ filter (\<lambda>i. i \<notin> set q) [0 ..< n])"
    by (auto simp: q_def)
  have s: "set (q @ filter (\<lambda>i. i \<notin> set q) [0 ..< n]) = set [0 ..< n]"
    by (auto simp: q_def)
  have "mset (q @ filter (\<lambda>i. i \<notin> set q) [0 ..< n]) = mset [0 ..< n]"
    using set_eq_iff_mset_eq_distinct[OF d distinct_upt[of 0 n]] s by blast
  then show ?thesis
    by (simp add: positions_def Let_def q_def)
qed

lemma mset_reorder: "mset (reorder p xs) = mset xs"
proof -
  have "mset (map (\<lambda>i. xs ! i) (positions p (length xs)))
      = image_mset (\<lambda>i. xs ! i) (mset [0 ..< length xs])"
    by (simp only: mset_map mset_positions)
  also have "\<dots> = mset (map (\<lambda>i. xs ! i) [0 ..< length xs])"
    by (simp only: mset_map)
  also have "\<dots> = mset xs"
    by (simp only: map_nth)
  finally show ?thesis
    by (simp only: reorder_def)
qed

lemma set_reorder: "set (reorder p xs) = set xs"
  using mset_reorder[of p xs] by (metis set_mset_mset)

lemma length_reorder: "length (reorder p xs) = length xs"
  using mset_reorder[of p xs] by (metis size_mset)

lemma distinct_reorder: "distinct (reorder p xs) = distinct xs"
  using mset_reorder[of p xs] by (metis mset_eq_imp_distinct_iff)

subsection \<open>Loops and the row operations\<close>

lemma bind_err_Inr: "bind_err m f = Inr y \<Longrightarrow> \<exists>x. m = Inr x \<and> f x = Inr y"
  by (cases m) (simp_all add: bind_err_def)

lemma mapM_err_Inr:
  "mapM_err f xs = Inr ys \<Longrightarrow> list_all2 (\<lambda>x y. f x = Inr y) xs ys"
  by (induction xs arbitrary: ys) (auto split: sum.splits)

lemma mapM_err_Cons:
  "mapM_err f (x # xs) = Inr ys \<Longrightarrow> \<exists>y ys'. f x = Inr y \<and> ys = y # ys'"
  by (auto split: sum.splits)

lemma cell_set_cell: "cell (set_cell c v r) x = (if x = c then v else cell r x)"
  by (induction r) (auto simp: cell_def)

lemma cell_select: "x \<in> set cols \<Longrightarrow> cell (map (\<lambda>c. (c, f c)) cols) x = f x"
  by (induction cols) (auto simp: cell_def)

lemma fill_cells_scalar: "is_scalar v \<Longrightarrow> fill_cells v n = Inr (replicate n v)"
  by (cases v) simp_all

lemma fill_column_Inr:
  assumes "fill_column rt df fill_grouping c t = Inr t'"
  shows "\<exists>cells vs.
           fill_cells (get_grouping_filling c fill_grouping) (length (rows t)) = Inr cells
         \<and> mapM_err (coerce_fill rt df c (get_grouping_filling c fill_grouping)) cells = Inr vs
         \<and> length vs = length (rows t)
         \<and> rows t' = map (\<lambda>(r, v). set_cell c v r) (zip (rows t) vs)"
proof -
  from assms obtain cells where
    cells: "fill_cells (get_grouping_filling c fill_grouping) (length (rows t)) = Inr cells"
    by (auto simp: fill_column_def Let_def split: sum.splits)
  with assms obtain vs where
    vs: "mapM_err (coerce_fill rt df c (get_grouping_filling c fill_grouping)) cells = Inr vs"
    and t': "rows t' = map (\<lambda>(r, v). set_cell c v r) (zip (rows t) vs)"
    by (auto simp: fill_column_def Let_def split: if_splits sum.splits)
  have "length cells = length (rows t)"
    using cells
    by (cases "get_grouping_filling c fill_grouping") (auto split: if_splits)
  moreover have "length vs = length cells"
    using mapM_err_Inr[OF vs] by (simp add: list_all2_lengthD)
  ultimately show ?thesis
    using cells vs t' by simp
qed

lemma fill_column_length:
  "fill_column rt df fill_grouping c t = Inr t' \<Longrightarrow> length (rows t') = length (rows t)"
  using fill_column_Inr[of rt df fill_grouping c t t'] by auto

lemma fill_column_single_row:
  assumes "fill_column rt df fill_grouping c t = Inr t'" and "rows t = [r]"
    and "is_scalar (get_grouping_filling c fill_grouping)"
  shows "\<exists>v. coerce_fill rt df c (get_grouping_filling c fill_grouping)
               (get_grouping_filling c fill_grouping) = Inr v
            \<and> rows t' = [set_cell c v r]"
proof -
  from fill_column_Inr[OF assms(1)] obtain cells vs where
    cells: "fill_cells (get_grouping_filling c fill_grouping) (length (rows t)) = Inr cells"
    and vs: "mapM_err (coerce_fill rt df c (get_grouping_filling c fill_grouping)) cells = Inr vs"
    and t': "rows t' = map (\<lambda>(r, v). set_cell c v r) (zip (rows t) vs)"
    by blast
  have "cells = [get_grouping_filling c fill_grouping]"
    using cells fill_cells_scalar[OF assms(3), of "length (rows t)"] assms(2) by simp
  with vs obtain v where
    "coerce_fill rt df c (get_grouping_filling c fill_grouping)
       (get_grouping_filling c fill_grouping) = Inr v" "vs = [v]"
    by (auto split: sum.splits)
  with t' assms(2) show ?thesis by simp
qed

lemma foldM_fill_length:
  "foldM_err (fill_column rt df fill_grouping) cs t = Inr t' \<Longrightarrow> length (rows t') = length (rows t)"
proof (induction cs arbitrary: t)
  case Nil
  then show ?case by simp
next
  case (Cons c cs)
  then obtain t1 where t1: "fill_column rt df fill_grouping c t = Inr t1"
      and rest: "foldM_err (fill_column rt df fill_grouping) cs t1 = Inr t'"
    by (auto split: sum.splits)
  show ?case
    using Cons.IH[OF rest] fill_column_length[OF t1] by simp
qed

lemma foldM_fill_single_row:
  assumes "foldM_err (fill_column rt df fill_grouping) cs t = Inr t'" and "rows t = [r]"
    and "\<forall>x \<in> set cs. is_scalar (get_grouping_filling x fill_grouping)"
  shows "\<exists>r'. rows t' = [r']
            \<and> (\<forall>x. x \<notin> set cs \<longrightarrow> cell r' x = cell r x)
            \<and> (\<forall>x \<in> set cs. coerce_fill rt df x (get_grouping_filling x fill_grouping)
                                  (get_grouping_filling x fill_grouping)
                                = Inr (cell r' x))"
  using assms
proof (induction cs arbitrary: t r)
  case Nil
  then show ?case by simp
next
  case (Cons c cs)
  from Cons.prems(1) obtain t1 where t1: "fill_column rt df fill_grouping c t = Inr t1"
      and rest: "foldM_err (fill_column rt df fill_grouping) cs t1 = Inr t'"
    by (auto split: sum.splits)
  have sc: "is_scalar (get_grouping_filling c fill_grouping)"
    and scs: "\<forall>x \<in> set cs. is_scalar (get_grouping_filling x fill_grouping)"
    using Cons.prems(3) by simp_all
  from fill_column_single_row[OF t1 Cons.prems(2) sc] obtain v where
    v: "coerce_fill rt df c (get_grouping_filling c fill_grouping)
          (get_grouping_filling c fill_grouping) = Inr v"
       "rows t1 = [set_cell c v r]"
    by blast
  from Cons.IH[OF rest v(2) scs] obtain r' where
    r': "rows t' = [r']"
        "\<forall>x. x \<notin> set cs \<longrightarrow> cell r' x = cell (set_cell c v r) x"
        "\<forall>x \<in> set cs. coerce_fill rt df x (get_grouping_filling x fill_grouping)
                            (get_grouping_filling x fill_grouping) = Inr (cell r' x)"
    by blast
  have other: "\<forall>x. x \<notin> set (c # cs) \<longrightarrow> cell r' x = cell r x"
    using r'(2) by (simp add: cell_set_cell)
  have "coerce_fill rt df c (get_grouping_filling c fill_grouping)
          (get_grouping_filling c fill_grouping) = Inr (cell r' c)"
  proof (cases "c \<in> set cs")
    case True
    with r'(3) show ?thesis by blast
  next
    case False
    with r'(2) have "cell r' c = v" by (simp add: cell_set_cell)
    with v(1) show ?thesis by simp
  qed
  with r'(3) have "\<forall>x \<in> set (c # cs).
      coerce_fill rt df x (get_grouping_filling x fill_grouping)
        (get_grouping_filling x fill_grouping) = Inr (cell r' x)"
    by simp
  with other r'(1) show ?case by blast
qed

lemma select_columns_Inr:
  "select_columns t cols = Inr t' \<Longrightarrow>
     columns t' = cols \<and> rows t' = map (\<lambda>r. map (\<lambda>c. (c, cell r c)) cols) (rows t)"
  by (auto simp: select_columns_def split: if_splits)

lemma mapM_reduce_cell:
  "mapM_err (\<lambda>(c, f). g c f) kvs = Inr vs \<Longrightarrow> map_of kvs v = Some f \<Longrightarrow>
     g v f = Inr (cell (zip (map fst kvs) vs) v)"
proof (induction kvs arbitrary: vs)
  case Nil
  then show ?case by simp
next
  case (Cons kv kvs)
  obtain k h where kv: "kv = (k, h)" by (cases kv)
  from Cons.prems(1) kv obtain y ys where
    y: "g k h = Inr y" and ys: "mapM_err (\<lambda>(c, f). g c f) kvs = Inr ys" and vs: "vs = y # ys"
    by (auto split: sum.splits)
  show ?case
  proof (cases "k = v")
    case True
    with Cons.prems(2) kv y vs show ?thesis by (simp add: cell_def)
  next
    case False
    with Cons.prems(2) kv have "map_of kvs v = Some f" by simp
    from Cons.IH[OF ys this] False kv vs show ?thesis by (simp add: cell_def)
  qed
qed

lemma df_agg_Inr:
  assumes "df_agg rt df ag = Inr t"
  shows "\<exists>r. rows t = [r]
            \<and> (\<forall>v f. map_of ag v = Some f \<longrightarrow> reduce rt f (column_values df v) = Inr (cell r v))"
proof -
  from assms obtain vs where
    vs: "mapM_err (\<lambda>(c, f). reduce rt f (column_values df c)) ag = Inr vs"
    and t: "rows t = [zip (map fst ag) vs]"
    by (auto simp: df_agg_def split: if_splits sum.splits)
  show ?thesis
    using mapM_reduce_cell[OF vs] t by simp
qed

lemma length_group_keys:
  "length (group_keys rt df cols)
     = length (remdups (filter (\<lambda>k. PNone \<notin> set k) (map (row_key cols) (rows df))))"
  by (simp add: group_keys_def Let_def length_reorder)

lemma groupby_agg_Inr:
  "groupby_agg rt df cols ag = Inr t \<Longrightarrow> length (rows t) = length (group_keys rt df cols)"
  by (auto simp: groupby_agg_def split: if_splits sum.splits dest!: mapM_err_Inr list_all2_lengthD)

lemma concat_tables_Inr:
  "concat_tables ts = Inr u \<Longrightarrow>
     ts \<noteq> [] \<and> columns u = columns (hd ts) \<and> rows u = concat (map rows ts)"
  by (cases ts) (auto simp: concat_tables_def)

lemma sort_values_Inr:
  "sort_values rt by t = Inr t' \<Longrightarrow>
     columns t' = columns t \<and> mset (rows t') = mset (rows t)
     \<and> (\<forall>c \<in> set by. count_list (columns t) c \<le> 1)"
  by (auto simp: sort_values_def mset_reorder list_all_iff split: if_splits)

lemma set_index_Inr: "set_index keys t = Inr t' \<Longrightarrow> rows t' = rows t"
  by (auto simp: set_index_def split: if_splits)

lemma cubinggroupby_Inr:
  assumes "cubinggroupby rt df a b c agg_arg fill_grouping as_index = Inr res"
  shows "\<exists>cfg dfs u. cubinggroupby_resolve rt df a b c agg_arg = Inr cfg
           \<and> mapM_err (single_result rt df cfg fill_grouping) (grouping_sets cfg) = Inr dfs
           \<and> concat_tables dfs = Inr u
           \<and> (\<forall>g \<in> set (all_groupby_cols cfg). count_list (columns u) g \<le> 1)
           \<and> mset (rows res) = mset (rows u)"
proof -
  from assms obtain cfg where cfg: "cubinggroupby_resolve rt df a b c agg_arg = Inr cfg"
    by (auto simp: cubinggroupby_def dest!: bind_err_Inr)
  with assms obtain dfs where
    dfs: "mapM_err (single_result rt df cfg fill_grouping) (grouping_sets cfg) = Inr dfs"
    by (auto simp: cubinggroupby_def bind_err_def split: sum.splits)
  with assms cfg obtain u where u: "concat_tables dfs = Inr u"
    by (auto simp: cubinggroupby_def bind_err_def split: sum.splits)
  with assms cfg dfs obtain s where s: "sort_values rt (all_groupby_cols cfg) u = Inr s"
    by (auto simp: cubinggroupby_def bind_err_def split: sum.splits)
  have "mset (rows res) = mset (rows s)"
  proof (cases as_index)
    case False
    with assms cfg dfs u s show ?thesis
      by (auto simp: cubinggroupby_def bind_err_def reset_index_drop_def)
  next
    case True
    with assms cfg dfs u s obtain i where
      i: "set_index (all_groupby_cols cfg) (reset_index_drop s) = Inr i" "res = sort_index rt i"
      by (auto simp: cubinggroupby_def bind_err_def Let_def split: sum.splits)
    show ?thesis
      using set_index_Inr[OF i(1)] i(2)
      by (simp add: sort_index_def mset_reorder reset_index_drop_def)
  qed
  with sort_values_Inr[OF s] cfg dfs u show ?thesis by auto
qed

lemma get_cube_combinations_Cons: "\<exists>cs. get_cube_combinations x = [] # cs"
  by (simp add: get_cube_combinations_def upt_rec)

lemma get_rollup_combinations_Cons: "\<exists>rs. get_rollup_combinations x = [] # rs"
  by (simp add: get_rollup_combinations_def upt_rec)

lemma grouping_sets_Cons: "\<exists>rest. grouping_sets cfg = ([], []) # rest"
proof -
  obtain cs where cs: "get_cube_combinations (cube_cols cfg) = [] # cs"
    using get_cube_combinations_Cons by blast
  obtain rs where rs: "get_rollup_combinations (rollup_cols cfg) = [] # rs"
    using get_rollup_combinations_Cons by blast
  show ?thesis
    by (simp add: grouping_sets_def cs rs)
qed

lemma single_result_columns:
  "single_result rt df cfg fill_grouping comb = Inr t \<Longrightarrow> columns t = result_cols cfg"
  by (auto simp: single_result_def Let_def dest!: bind_err_Inr select_columns_Inr)

lemma cubinggroupby_columns:
  assumes "cubinggroupby rt df a b c agg_arg fill_grouping as_index = Inr res"
    and "cubinggroupby_resolve rt df a b c agg_arg = Inr cfg"
  shows "index_names res = (if as_index then all_groupby_cols cfg else [])
       \<and> columns res = (if as_index
                        then filter (\<lambda>x. x \<notin> set (all_groupby_cols cfg)) (result_cols cfg)
                        else result_cols cfg)"
proof -
  from assms obtain dfs where
    dfs: "mapM_err (single_result rt df cfg fill_grouping) (grouping_sets cfg) = Inr dfs"
    by (auto simp: cubinggroupby_def bind_err_def split: sum.splits)
  with assms obtain u where u: "concat_tables dfs = Inr u"
    by (auto simp: cubinggroupby_def bind_err_def split: sum.splits)
  with assms dfs obtain s where s: "sort_values rt (all_groupby_cols cfg) u = Inr s"
    by (auto simp: cubinggroupby_def bind_err_def split: sum.splits)
  obtain rest where rest: "grouping_sets cfg = ([], []) # rest"
    using grouping_sets_Cons by blast
  from dfs rest obtain d0 ds where
    d0: "single_result rt df cfg fill_grouping ([], []) = Inr d0" and ds: "dfs = d0 # ds"
    using mapM_err_Cons[of "single_result rt df cfg fill_grouping" "([], [])" rest dfs] by auto
  have cols_u: "columns u = result_cols cfg" and idx_u: "index_names u = []"
    using u ds single_result_columns[OF d0] by (auto simp: concat_tables_def)
  have cols_s: "columns s = result_cols cfg" and idx_s: "index_names s = []"
    using s cols_u idx_u by (auto simp: sort_values_def split: if_splits)
  show ?thesis
  proof (cases as_index)
    case False
    with assms dfs u s have "res = reset_index_drop s"
      by (auto simp: cubinggroupby_def bind_err_def)
    with False cols_s show ?thesis
      by (simp add: reset_index_drop_def)
  next
    case True
    with assms dfs u s obtain i where
      i: "set_index (all_groupby_cols cfg) (reset_index_drop s) = Inr i" "res = sort_index rt i"
      by (auto simp: cubinggroupby_def bind_err_def Let_def split: sum.splits)
    from i(1) have "index_names i = all_groupby_cols cfg"
      and "columns i = filter (\<lambda>x. x \<notin> set (all_groupby_cols cfg)) (result_cols cfg)"
      using cols_s by (auto simp: set_index_def reset_index_drop_def split: if_splits)
    with True i(2) show ?thesis
      by (simp add: sort_index_def)
  qed
qed

subsection \<open>Configuration errors\<close>

text \<open>
  C4, as the code has it: when the three column arguments are column specifications
  (none, one name, or a list of names), a column named in two of the three roles, or an
  aggregation argument that is neither a string nor a dict, makes the call raise a
  ValueError, the same for every table, every engine, every fill specification and
  either index flag: nothing of the table has been read or aggregated, and there is no
  result table.
\<close>

theorem cubinggroupby_config_error:
  assumes "is_colspec a" and "is_colspec b" and "is_colspec c"
    and "\<not> (col_set a \<inter> col_set b = {} \<and> col_set a \<inter> col_set c = {} \<and> col_set b \<inter> col_set c = {})
         \<or> (\<not> is_str agg_arg \<and> \<not> is_dict agg_arg)"
  shows "\<exists>msg. \<forall>rt df fill_grouping as_index.
           cubinggroupby rt df a b c agg_arg fill_grouping as_index = Inl (ValueError msg)"
proof -
  have na: "cols_normalize a = PList (spec_cols a)" "is_colspec (cols_normalize a)"
      "col_set (cols_normalize a) = col_set a"
    using cols_normalize_colspec[OF assms(1)] by blast+
  have nb: "cols_normalize b = PList (spec_cols b)" "is_colspec (cols_normalize b)"
      "col_set (cols_normalize b) = col_set b"
    using cols_normalize_colspec[OF assms(2)] by blast+
  have nc: "cols_normalize c = PList (spec_cols c)" "is_colspec (cols_normalize c)"
      "col_set (cols_normalize c) = col_set c"
    using cols_normalize_colspec[OF assms(3)] by blast+
  have chk: "check_no_interleaving_cols (cols_normalize a) (cols_normalize b) (cols_normalize c)
      = Inr (col_set a \<inter> col_set b = {} \<and> col_set a \<inter> col_set c = {} \<and> col_set b \<inter> col_set c = {})"
    using check_no_interleaving_cols_eq[OF na(2) nb(2) nc(2)] by (simp only: na(3) nb(3) nc(3))
  show ?thesis
  proof (cases "col_set a \<inter> col_set b = {} \<and> col_set a \<inter> col_set c = {} \<and> col_set b \<inter> col_set c = {}")
    case False
    then have "cubinggroupby_resolve rt df a b c agg_arg
        = Inl (ValueError ''the columns to be grouped by should be different'')" for rt df
      using chk by (simp add: cubinggroupby_resolve_def Let_def)
    then show ?thesis
      by (simp add: cubinggroupby_def bind_err_def)
  next
    case True
    with assms(4) have bad: "\<not> is_str agg_arg" "\<not> is_dict agg_arg" by simp_all
    have ra: "resolve_agg rt df g agg_arg
        = Inl (ValueError ''the agg parameter should be only str or dict'')" for rt df g
      using bad by (cases agg_arg) (simp_all add: resolve_agg_def)
    have "cubinggroupby_resolve rt df a b c agg_arg
        = Inl (ValueError ''the agg parameter should be only str or dict'')" for rt df
      using chk True
      by (simp add: cubinggroupby_resolve_def Let_def na(1) nb(1) nc(1) bind_err_def ra
           del: cols_normalize.simps)
    then show ?thesis
      by (simp add: cubinggroupby_def bind_err_def)
  qed
qed

theorem cubinggroupby_config_error_witness:
  "is_colspec (PList [PStr ''a'']) \<and> is_colspec (PStr ''a'') \<and> is_colspec PNone
   \<and> col_set (PList [PStr ''a'']) \<inter> col_set (PStr ''a'') \<noteq> {}
   \<and> \<not> is_str (PInt 3) \<and> \<not> is_dict (PInt 3)
   \<and> cubinggroupby sample_runtime sample_df (PList [PStr ''a'']) (PStr ''a'') PNone (PStr ''sum'')
        PNone True = Inl (ValueError ''the columns to be grouped by should be different'')
   \<and> cubinggroupby sample_runtime sample_df (PList [PStr ''a'']) PNone PNone (PInt 3)
        PNone True = Inl (ValueError ''the agg parameter should be only str or dict'')"
proof -
  have 1: "cubinggroupby_resolve sample_runtime sample_df (PList [PStr ''a'']) (PStr ''a'') PNone
      (PStr ''sum'') = Inl (ValueError ''the columns to be grouped by should be different'')"
    by (simp add: cubinggroupby_resolve_def check_no_interleaving_cols_def py_set_def)
  have 2: "cubinggroupby_resolve sample_runtime sample_df (PList [PStr ''a'']) PNone PNone
      (PInt 3) = Inl (ValueError ''the agg parameter should be only str or dict'')"
    by (simp add: cubinggroupby_resolve_def check_no_interleaving_cols_def py_set_def
        bind_err_def resolve_agg_def)
  show ?thesis
    using cubinggroupby_config_error[of "PList [PStr ''a'']" "PStr ''a''" PNone "PStr ''sum''"]
      cubinggroupby_config_error[of "PList [PStr ''a'']" PNone PNone "PInt 3"]
    by (simp add: is_colspec_def col_set_def cubinggroupby_def bind_err_def 1 2)
qed

text \<open>
  C4 as stated, for every call, fails when a column argument is a tuple: the normalizer
  returns it as it is, the validator accepts it, and adding a list to it (line 114)
  raises a TypeError before the aggregation argument is looked at.
\<close>

theorem cubinggroupby_config_error_counterexample:
  "\<not> is_str (PInt 3) \<and> \<not> is_dict (PInt 3)
   \<and> cubinggroupby sample_runtime sample_df PNone (PTuple [PStr ''a'']) PNone (PInt 3) PNone True
       = Inl TypeError"
  by (simp add: cubinggroupby_def cubinggroupby_resolve_def check_no_interleaving_cols_def
      py_set_def bind_err_def)

subsection \<open>Value columns\<close>

lemma resolve_agg_str:
  assumes "resolve_agg rt df (PList g) agg_arg = Inr (vcols, agg_map)" and "is_str agg_arg"
  shows "set vcols = set (columns df) - set g \<and> distinct vcols
       \<and> agg_map = map (\<lambda>x. (x, agg_arg)) vcols"
proof -
  from assms have h: "list_all hashable g"
    by (auto simp: resolve_agg_def py_set_def split: if_splits)
  define difference where "difference = filter (\<lambda>x. x \<notin> set g) (remdups (columns df))"
  from assms h have
    "vcols = reorder (set_order rt difference) difference"
    "agg_map = map (\<lambda>x. (x, agg_arg)) vcols"
    by (auto simp: resolve_agg_def py_set_def Let_def difference_def)
  then show ?thesis
    by (auto simp: set_reorder distinct_reorder difference_def)
qed

lemma resolve_agg_dict:
  "resolve_agg rt df g (PDict kvs) = Inr (map fst kvs, kvs)"
  by (simp add: resolve_agg_def)

text \<open>
  C2, as the code has it: in a call that passes the validation, the grouping columns
  are the columns of the plain, cube and rollup arguments, in this order; with a
  reduction name the value columns are the columns of the table that are no grouping
  columns, each once, hence disjoint from the grouping columns; with a mapping the
  value columns are the keys of the mapping as the caller wrote them, with no check
  against the grouping columns. A call that returns a table returns these columns: the
  grouping columns followed by the value columns, the grouping columns as the index
  when the index is asked for.
\<close>

theorem cubinggroupby_resolve_value_cols:
  assumes "cubinggroupby_resolve rt df a b c agg_arg = Inr cfg"
  shows "normal_cols cfg = spec_cols a \<and> cube_cols cfg = spec_cols b
       \<and> rollup_cols cfg = spec_cols c
       \<and> all_groupby_cols cfg = spec_cols a @ spec_cols b @ spec_cols c
       \<and> result_cols cfg = (spec_cols a @ spec_cols b @ spec_cols c) @ value_cols cfg
       \<and> (is_str agg_arg \<longrightarrow>
            set (value_cols cfg) = set (columns df) - set (spec_cols a @ spec_cols b @ spec_cols c)
            \<and> distinct (value_cols cfg)
            \<and> set (value_cols cfg) \<inter> set (spec_cols a @ spec_cols b @ spec_cols c) = {}
            \<and> agg cfg = map (\<lambda>x. (x, agg_arg)) (value_cols cfg))
       \<and> (\<forall>kvs. agg_arg = PDict kvs \<longrightarrow> value_cols cfg = map fst kvs \<and> agg cfg = kvs)
       \<and> (\<forall>fill_grouping as_index res.
             cubinggroupby rt df a b c agg_arg fill_grouping as_index = Inr res \<longrightarrow>
               index_names res
                 = (if as_index then spec_cols a @ spec_cols b @ spec_cols c else [])
             \<and> columns res
                 = (if as_index
                    then filter (\<lambda>x. x \<notin> set (spec_cols a @ spec_cols b @ spec_cols c))
                           ((spec_cols a @ spec_cols b @ spec_cols c) @ value_cols cfg)
                    else (spec_cols a @ spec_cols b @ spec_cols c) @ value_cols cfg))"
proof -
  note r = cubinggroupby_resolve_Inr[OF assms]
  note args = cubinggroupby_resolve_args[OF assms]
  have ra0: "resolve_agg rt df (PList (all_groupby_cols cfg)) agg_arg
      = Inr (value_cols cfg, agg cfg)"
    using r by blast
  have ra: "resolve_agg rt df (PList (spec_cols a @ spec_cols b @ spec_cols c)) agg_arg
      = Inr (value_cols cfg, agg cfg)"
    using ra0 unfolding args(4) .
  have 1: "result_cols cfg = (spec_cols a @ spec_cols b @ spec_cols c) @ value_cols cfg"
    using args(4,5) by simp
  have 2: "set (value_cols cfg) = set (columns df) - set (spec_cols a @ spec_cols b @ spec_cols c)
      \<and> distinct (value_cols cfg) \<and> agg cfg = map (\<lambda>x. (x, agg_arg)) (value_cols cfg)"
    if "is_str agg_arg"
    using resolve_agg_str[OF ra that] .
  have 3: "value_cols cfg = map fst kvs \<and> agg cfg = kvs" if "agg_arg = PDict kvs" for kvs
    using ra that by (auto simp add: resolve_agg_dict)
  from 2 have 4: "set (value_cols cfg) \<inter> set (spec_cols a @ spec_cols b @ spec_cols c) = {}"
    if "is_str agg_arg"
    using that by blast
  have 5: "index_names res
                 = (if as_index then spec_cols a @ spec_cols b @ spec_cols c else [])
             \<and> columns res
                 = (if as_index
                    then filter (\<lambda>x. x \<notin> set (spec_cols a @ spec_cols b @ spec_cols c))
                           ((spec_cols a @ spec_cols b @ spec_cols c) @ value_cols cfg)
                    else (spec_cols a @ spec_cols b @ spec_cols c) @ value_cols cfg)"
    if "cubinggroupby rt df a b c agg_arg fill_grouping as_index = Inr res"
    for fill_grouping as_index res
    using cubinggroupby_columns[OF that assms] unfolding 1 args(4) .
  show ?thesis
    using args(1,2,3,4) 1 2 3 4 5 by blast
qed

theorem cubinggroupby_resolve_value_cols_witness:
  "cubinggroupby_resolve sample_runtime sample_df PNone (PList [PStr ''a'']) PNone (PStr ''sum'')
     = Inr \<lparr>normal_cols = [], cube_cols = [PStr ''a''], rollup_cols = [],
            all_groupby_cols = [PStr ''a''],
            agg = [(PStr ''v'', PStr ''sum''), (PStr ''w'', PStr ''sum'')],
            value_cols = [PStr ''v'', PStr ''w''],
            result_cols = [PStr ''a'', PStr ''v'', PStr ''w'']\<rparr>
   \<and> is_str (PStr ''sum'')
   \<and> set [PStr ''v'', PStr ''w'']
       = set (columns sample_df) - set (spec_cols PNone @ spec_cols (PList [PStr ''a'']) @ spec_cols PNone)
   \<and> cubinggroupby sample_runtime sample_df PNone (PList [PStr ''a'']) PNone (PStr ''sum'')
        PNone False
     = Inr \<lparr>index_names = [], columns = [PStr ''a'', PStr ''v'', PStr ''w''],
            rows = [[(PStr ''a'', PStr ''x''), (PStr ''v'', PInt 10), (PStr ''w'', PInt 100)],
                    [(PStr ''a'', PStr ''y''), (PStr ''v'', PInt 20), (PStr ''w'', PInt 200)],
                    [(PStr ''a'', PNone), (PStr ''v'', PInt 60), (PStr ''w'', PInt 600)]]\<rparr>"
proof -
  have ev: "cubinggroupby_resolve sample_runtime sample_df PNone (PList [PStr ''a'']) PNone
      (PStr ''sum'')
     = Inr \<lparr>normal_cols = [], cube_cols = [PStr ''a''], rollup_cols = [],
            all_groupby_cols = [PStr ''a''],
            agg = [(PStr ''v'', PStr ''sum''), (PStr ''w'', PStr ''sum'')],
            value_cols = [PStr ''v'', PStr ''w''],
            result_cols = [PStr ''a'', PStr ''v'', PStr ''w'']\<rparr>"
    by code_simp
  have run: "cubinggroupby sample_runtime sample_df PNone (PList [PStr ''a'']) PNone
      (PStr ''sum'') PNone False
     = Inr \<lparr>index_names = [], columns = [PStr ''a'', PStr ''v'', PStr ''w''],
            rows = [[(PStr ''a'', PStr ''x''), (PStr ''v'', PInt 10), (PStr ''w'', PInt 100)],
                    [(PStr ''a'', PStr ''y''), (PStr ''v'', PInt 20), (PStr ''w'', PInt 200)],
                    [(PStr ''a'', PNone), (PStr ''v'', PInt 60), (PStr ''w'', PInt 600)]]\<rparr>"
    by code_simp
  have str: "is_str (PStr ''sum'')"
    by simp
  have "set (value_cols \<lparr>normal_cols = [], cube_cols = [PStr ''a''], rollup_cols = [],
            all_groupby_cols = [PStr ''a''],
            agg = [(PStr ''v'', PStr ''sum''), (PStr ''w'', PStr ''sum'')],
            value_cols = [PStr ''v'', PStr ''w''],
            result_cols = [PStr ''a'', PStr ''v'', PStr ''w'']\<rparr>)
       = set (columns sample_df) - set (spec_cols PNone @ spec_cols (PList [PStr ''a'']) @ spec_cols PNone)"
    using cubinggroupby_resolve_value_cols[OF ev] str by blast
  then have vc: "set [PStr ''v'', PStr ''w'']
       = set (columns sample_df) - set (spec_cols PNone @ spec_cols (PList [PStr ''a'']) @ spec_cols PNone)"
    by simp
  show ?thesis
    using ev str vc run by (intro conjI)
qed

text \<open>
  C2 as stated fails for a mapping that names a grouping column: the call passes the
  validation, the value column \<open>a\<close> is a grouping column, and the engine is called
  (with an engine whose reductions fail, the call fails in a reduction).
\<close>

theorem cubinggroupby_resolve_value_cols_counterexample:
  "cubinggroupby_resolve sample_runtime sample_df PNone (PList [PStr ''a'']) PNone
      (PDict [(PStr ''a'', PStr ''count'')])
     = Inr \<lparr>normal_cols = [], cube_cols = [PStr ''a''], rollup_cols = [],
            all_groupby_cols = [PStr ''a''],
            agg = [(PStr ''a'', PStr ''count'')],
            value_cols = [PStr ''a''],
            result_cols = [PStr ''a'', PStr ''a'']\<rparr>
   \<and> set [PStr ''a''] \<inter> set [PStr ''a''] \<noteq> {}
   \<and> cubinggroupby failing_runtime sample_df PNone (PList [PStr ''a'']) PNone
        (PDict [(PStr ''a'', PStr ''count'')]) PNone False
       = Inl (EngineError ''reduction called'')"
  by code_simp

subsection \<open>Grouping sets and the number of rows\<close>

lemma length_product_combinations:
  "length (List.product (get_cube_combinations xs) (get_rollup_combinations ys))
     = 2 ^ length xs * (length ys + 1)"
  by (simp add: length_get_cube_combinations get_rollup_combinations_def)

lemma single_result_Inr:
  assumes "single_result rt df cfg fill_grouping comb = Inr t"
  shows "\<exists>aggregated.
           (if normal_cols cfg @ fst comb @ snd comb = [] then df_agg rt df (agg cfg)
            else groupby_agg rt df (normal_cols cfg @ fst comb @ snd comb) (agg cfg))
             = Inr aggregated
         \<and> length (rows t) = length (rows aggregated)
         \<and> length (rows t) = nonnull_combinations df (normal_cols cfg @ fst comb @ snd comb)"
proof -
  define gcols where "gcols = normal_cols cfg @ fst comb @ snd comb"
  define difference where
    "difference = filter (\<lambda>x. x \<notin> set gcols) (remdups (all_groupby_cols cfg))"
  define rem where "rem = reorder (set_order rt difference) difference"
  from assms obtain aggregated filled where
    ag: "(if gcols = [] then df_agg rt df (agg cfg) else groupby_agg rt df gcols (agg cfg))
          = Inr aggregated"
    and fl: "foldM_err (fill_column rt df fill_grouping) rem aggregated = Inr filled"
    and sel: "select_columns filled (result_cols cfg) = Inr t"
    unfolding single_result_def Let_def gcols_def[symmetric] difference_def[symmetric]
      rem_def[symmetric]
    by (auto dest!: bind_err_Inr)
  have "length (rows aggregated) = nonnull_combinations df gcols"
  proof (cases "gcols = []")
    case True
    with ag df_agg_Inr[of rt df "agg cfg" aggregated] show ?thesis
      by (auto simp: nonnull_combinations_def)
  next
    case False
    with ag groupby_agg_Inr[of rt df gcols "agg cfg" aggregated] show ?thesis
      by (simp add: nonnull_combinations_def length_group_keys)
  qed
  moreover have "length (rows t) = length (rows aggregated)"
    using foldM_fill_length[OF fl] select_columns_Inr[OF sel] by simp
  ultimately show ?thesis
    using ag by (auto simp: gcols_def)
qed

lemma list_all2_single_result:
  assumes "list_all2 (\<lambda>comb t. single_result rt df cfg fill_grouping comb = Inr t) combs dfs"
  shows "list_all2 (\<lambda>(cs, rs) t. \<exists>aggregated.
            (if normal_cols cfg @ cs @ rs = [] then df_agg rt df (agg cfg)
             else groupby_agg rt df (normal_cols cfg @ cs @ rs) (agg cfg)) = Inr aggregated
            \<and> length (rows t) = length (rows aggregated)) combs dfs"
  using assms
proof (induction combs dfs rule: list_all2_induct)
  case Nil
  show ?case by simp
next
  case (Cons comb combs t dfs)
  obtain cs rs where comb: "comb = (cs, rs)" by (cases comb)
  show ?case
    using Cons.IH single_result_Inr[OF Cons.hyps(1)] by (auto simp: comb)
qed

lemma length_concat_single_result:
  assumes "list_all2 (\<lambda>comb t. single_result rt df cfg fill_grouping comb = Inr t) combs dfs"
  shows "length (concat (map rows dfs))
       = sum_list (map (\<lambda>(cs, rs). nonnull_combinations df (normal_cols cfg @ cs @ rs)) combs)"
  using assms
proof (induction combs dfs rule: list_all2_induct)
  case Nil
  show ?case by simp
next
  case (Cons comb combs t dfs)
  obtain cs rs where comb: "comb = (cs, rs)" by (cases comb)
  show ?case
    using Cons.IH single_result_Inr[OF Cons.hyps(1)] by (auto simp: comb)
qed

text \<open>
  C5, as the code has it. In a call that returns a table, with \<open>c\<close> cube columns and
  \<open>r\<close> rollup columns: the engine is asked for one aggregate per pair of a cube
  combination and a rollup prefix, \<open>2 ^ c * (r + 1)\<close> of them, on the plain columns
  followed by the combination and the prefix (the whole table when there is no such
  column); the rows of the result are those of the per-set results; and they are as
  many as the sum, over the grouping sets, of the distinct combinations of the set's
  columns that hold no null (the engine drops the groups of a null key), 1 for the
  empty grouping set.
\<close>

theorem cubinggroupby_row_count:
  assumes "cubinggroupby rt df a b c agg_arg fill_grouping as_index = Inr res"
  shows "(\<exists>cfg (dfs :: table list).
            cubinggroupby_resolve rt df a b c agg_arg = Inr cfg
          \<and> length dfs = 2 ^ length (spec_cols b) * (length (spec_cols c) + 1)
          \<and> list_all2 (\<lambda>(cs, rs) t. \<exists>aggregated.
                (if spec_cols a @ cs @ rs = [] then df_agg rt df (agg cfg)
                 else groupby_agg rt df (spec_cols a @ cs @ rs) (agg cfg)) = Inr aggregated
                \<and> length (rows t) = length (rows aggregated))
              (List.product (get_cube_combinations (spec_cols b))
                            (get_rollup_combinations (spec_cols c))) dfs
          \<and> mset (rows res) = mset (concat (map rows dfs)))
       \<and> length (rows res)
           = sum_list (map (\<lambda>(cs, rs). nonnull_combinations df (spec_cols a @ cs @ rs))
                           (List.product (get_cube_combinations (spec_cols b))
                                         (get_rollup_combinations (spec_cols c))))"
proof -
  from cubinggroupby_Inr[OF assms] obtain cfg dfs u where
    cfg: "cubinggroupby_resolve rt df a b c agg_arg = Inr cfg"
    and dfs: "mapM_err (single_result rt df cfg fill_grouping) (grouping_sets cfg) = Inr dfs"
    and u: "concat_tables dfs = Inr u"
    and res: "mset (rows res) = mset (rows u)"
    by blast
  note args = cubinggroupby_resolve_args[OF cfg]
  define combs where
    "combs = List.product (get_cube_combinations (spec_cols b))
                          (get_rollup_combinations (spec_cols c))"
  have gs: "grouping_sets cfg = combs"
    by (simp add: grouping_sets_def combs_def args(2,3))
  have all2: "list_all2 (\<lambda>comb t. single_result rt df cfg fill_grouping comb = Inr t) combs dfs"
    using mapM_err_Inr[OF dfs] by (simp only: gs)
  have len: "length dfs = 2 ^ length (spec_cols b) * (length (spec_cols c) + 1)"
    using list_all2_lengthD[OF all2] length_product_combinations[of "spec_cols b" "spec_cols c"]
    by (simp only: combs_def)
  have per: "list_all2 (\<lambda>(cs, rs) t. \<exists>aggregated.
                (if spec_cols a @ cs @ rs = [] then df_agg rt df (agg cfg)
                 else groupby_agg rt df (spec_cols a @ cs @ rs) (agg cfg)) = Inr aggregated
                \<and> length (rows t) = length (rows aggregated)) combs dfs"
    using list_all2_single_result[OF all2] by (simp only: args(1))
  have rows_u: "rows u = concat (map rows dfs)"
    using concat_tables_Inr[OF u] by simp
  have perm: "mset (rows res) = mset (concat (map rows dfs))"
    using res rows_u by simp
  have "length (rows res) = length (concat (map rows dfs))"
    using perm by (metis size_mset)
  also have "\<dots> = sum_list (map (\<lambda>(cs, rs). nonnull_combinations df (spec_cols a @ cs @ rs)) combs)"
    using length_concat_single_result[OF all2] by (simp only: args(1))
  finally have cnt: "length (rows res)
      = sum_list (map (\<lambda>(cs, rs). nonnull_combinations df (spec_cols a @ cs @ rs)) combs)" .
  have "cubinggroupby_resolve rt df a b c agg_arg = Inr cfg
          \<and> length dfs = 2 ^ length (spec_cols b) * (length (spec_cols c) + 1)
          \<and> list_all2 (\<lambda>(cs, rs) t. \<exists>aggregated.
                (if spec_cols a @ cs @ rs = [] then df_agg rt df (agg cfg)
                 else groupby_agg rt df (spec_cols a @ cs @ rs) (agg cfg)) = Inr aggregated
                \<and> length (rows t) = length (rows aggregated)) combs dfs
          \<and> mset (rows res) = mset (concat (map rows dfs))"
    using cfg len per perm by (intro conjI)
  then have "\<exists>dfs :: table list.
            cubinggroupby_resolve rt df a b c agg_arg = Inr cfg
          \<and> length dfs = 2 ^ length (spec_cols b) * (length (spec_cols c) + 1)
          \<and> list_all2 (\<lambda>(cs, rs) t. \<exists>aggregated.
                (if spec_cols a @ cs @ rs = [] then df_agg rt df (agg cfg)
                 else groupby_agg rt df (spec_cols a @ cs @ rs) (agg cfg)) = Inr aggregated
                \<and> length (rows t) = length (rows aggregated)) combs dfs
          \<and> mset (rows res) = mset (concat (map rows dfs))"
    by (rule exI[where x = dfs])
  then have "\<exists>cfg (dfs :: table list).
            cubinggroupby_resolve rt df a b c agg_arg = Inr cfg
          \<and> length dfs = 2 ^ length (spec_cols b) * (length (spec_cols c) + 1)
          \<and> list_all2 (\<lambda>(cs, rs) t. \<exists>aggregated.
                (if spec_cols a @ cs @ rs = [] then df_agg rt df (agg cfg)
                 else groupby_agg rt df (spec_cols a @ cs @ rs) (agg cfg)) = Inr aggregated
                \<and> length (rows t) = length (rows aggregated)) combs dfs
          \<and> mset (rows res) = mset (concat (map rows dfs))"
    by (rule exI[where x = cfg])
  with cnt show ?thesis
    unfolding combs_def by (intro conjI)
qed

theorem cubinggroupby_row_count_witness:
  "cubinggroupby sample_runtime sample_df PNone (PList [PStr ''a'']) PNone
      (PDict [(PStr ''v'', PStr ''sum'')]) PNone False
     = Inr \<lparr>index_names = [], columns = [PStr ''a'', PStr ''v''],
            rows = [[(PStr ''a'', PStr ''x''), (PStr ''v'', PInt 10)],
                    [(PStr ''a'', PStr ''y''), (PStr ''v'', PInt 20)],
                    [(PStr ''a'', PNone), (PStr ''v'', PInt 60)]]\<rparr>
   \<and> length (rows \<lparr>index_names = [], columns = [PStr ''a'', PStr ''v''],
            rows = [[(PStr ''a'', PStr ''x''), (PStr ''v'', PInt 10)],
                    [(PStr ''a'', PStr ''y''), (PStr ''v'', PInt 20)],
                    [(PStr ''a'', PNone), (PStr ''v'', PInt 60)]]\<rparr>)
       = sum_list (map (\<lambda>(cs, rs). nonnull_combinations sample_df (spec_cols PNone @ cs @ rs))
                 (List.product (get_cube_combinations (spec_cols (PList [PStr ''a''])))
                               (get_rollup_combinations (spec_cols PNone))))
   \<and> sum_list (map (\<lambda>(cs, rs). nonnull_combinations sample_df (spec_cols PNone @ cs @ rs))
                 (List.product (get_cube_combinations (spec_cols (PList [PStr ''a''])))
                               (get_rollup_combinations (spec_cols PNone)))) = 3"
proof -
  have run: "cubinggroupby sample_runtime sample_df PNone (PList [PStr ''a'']) PNone
      (PDict [(PStr ''v'', PStr ''sum'')]) PNone False
     = Inr \<lparr>index_names = [], columns = [PStr ''a'', PStr ''v''],
            rows = [[(PStr ''a'', PStr ''x''), (PStr ''v'', PInt 10)],
                    [(PStr ''a'', PStr ''y''), (PStr ''v'', PInt 20)],
                    [(PStr ''a'', PNone), (PStr ''v'', PInt 60)]]\<rparr>"
    by code_simp
  have cnt: "sum_list (map (\<lambda>(cs, rs). nonnull_combinations sample_df (spec_cols PNone @ cs @ rs))
                 (List.product (get_cube_combinations (spec_cols (PList [PStr ''a''])))
                               (get_rollup_combinations (spec_cols PNone)))) = 3"
    by code_simp
  show ?thesis
    using conjunct2[OF cubinggroupby_row_count[OF run]] run cnt by blast
qed

text \<open>
  C5 as stated counts every distinct combination. On the sample table, cube on \<open>a\<close>:
  the combinations of \<open>a\<close> are \<open>x\<close>, \<open>y\<close> and null, which with the grand total makes
  4, and the result has 3 rows.
\<close>

theorem cubinggroupby_row_count_counterexample:
  "cubinggroupby sample_runtime sample_df PNone (PList [PStr ''a'']) PNone
      (PDict [(PStr ''v'', PStr ''sum'')]) PNone False
     = Inr \<lparr>index_names = [], columns = [PStr ''a'', PStr ''v''],
            rows = [[(PStr ''a'', PStr ''x''), (PStr ''v'', PInt 10)],
                    [(PStr ''a'', PStr ''y''), (PStr ''v'', PInt 20)],
                    [(PStr ''a'', PNone), (PStr ''v'', PInt 60)]]\<rparr>
   \<and> sum_list (map (\<lambda>(cs, rs). distinct_combinations sample_df (spec_cols PNone @ cs @ rs))
                 (List.product (get_cube_combinations (spec_cols (PList [PStr ''a''])))
                               (get_rollup_combinations (spec_cols PNone)))) = 4"
  by code_simp

subsection \<open>The grand total\<close>

lemma twice_in_append:
  assumes "x \<in> set xs" and "x \<in> set ys"
  shows "2 \<le> count_list (xs @ ys) x"
proof -
  have "count_list xs x \<noteq> 0" and "count_list ys x \<noteq> 0"
    using assms by (simp_all add: count_list_0_iff)
  then show ?thesis by simp
qed

lemma map_of_const: "map_of (map (\<lambda>x. (x, c)) xs) v = (if v \<in> set xs then Some c else None)"
  by (induction xs) simp_all

lemma resolved_agg_spec:
  assumes "cubinggroupby_resolve rt df a b c agg_arg = Inr cfg"
  shows "map_of (agg cfg) v = spec_agg df a b c agg_arg v"
    and "value_cols cfg = map fst (agg cfg)"
proof -
  note r = cubinggroupby_resolve_Inr[OF assms]
  note args = cubinggroupby_resolve_args[OF assms]
  have ra0: "resolve_agg rt df (PList (all_groupby_cols cfg)) agg_arg
      = Inr (value_cols cfg, agg cfg)"
    using r by blast
  have ra: "resolve_agg rt df (PList (spec_cols a @ spec_cols b @ spec_cols c)) agg_arg
      = Inr (value_cols cfg, agg cfg)"
    using ra0 unfolding args(4) .
  have "map_of (agg cfg) v = spec_agg df a b c agg_arg v \<and> value_cols cfg = map fst (agg cfg)"
  proof (cases agg_arg)
    case (PStr s)
    then have str: "is_str agg_arg" by simp
    from resolve_agg_str[OF ra str] have
      vc: "set (value_cols cfg) = set (columns df) - set (spec_cols a @ spec_cols b @ spec_cols c)"
      and ag: "agg cfg = map (\<lambda>x. (x, agg_arg)) (value_cols cfg)"
      by blast+
    have "map_of (agg cfg) v = (if v \<in> set (value_cols cfg) then Some agg_arg else None)"
      by (subst ag) (rule map_of_const)
    moreover have "map fst (agg cfg) = value_cols cfg"
      by (subst ag) (simp add: o_def)
    ultimately show ?thesis
      using vc PStr by (simp add: spec_agg_def)
  next
    case (PDict kvs)
    with ra show ?thesis
      by (auto simp: resolve_agg_dict spec_agg_def)
  qed (use ra in \<open>simp_all add: resolve_agg_def\<close>)
  then show "map_of (agg cfg) v = spec_agg df a b c agg_arg v"
    and "value_cols cfg = map fst (agg cfg)"
    by blast+
qed

lemma py_set_PList_hashable: "py_set (PList xs) = Inr ys \<Longrightarrow> list_all hashable xs"
  by (auto simp: py_set_def split: if_splits)

lemma resolved_cols_hashable:
  assumes "cubinggroupby_resolve rt df a b c agg_arg = Inr cfg"
  shows "list_all hashable (spec_cols a @ spec_cols b @ spec_cols c)"
proof -
  note r = cubinggroupby_resolve_Inr[OF assms]
  note args = cubinggroupby_resolve_args[OF assms]
  have n: "cols_normalize a = PList (spec_cols a)" "cols_normalize b = PList (spec_cols b)"
      "cols_normalize c = PList (spec_cols c)"
    using r args(1,2,3) by simp_all
  have "check_no_interleaving_cols (cols_normalize a) (cols_normalize b) (cols_normalize c)
          = Inr True"
    using r by blast
  then have "check_no_interleaving_cols (PList (spec_cols a)) (PList (spec_cols b))
          (PList (spec_cols c)) = Inr True"
    unfolding n .
  then obtain xs ys zs where
    "py_set (PList (spec_cols a)) = Inr xs" "py_set (PList (spec_cols b)) = Inr ys"
    "py_set (PList (spec_cols c)) = Inr zs"
    by (auto simp: check_no_interleaving_cols_def split: sum.splits)
  then show ?thesis
    using py_set_PList_hashable by fastforce
qed

lemma get_grouping_filling_spec:
  "hashable col \<Longrightarrow> get_grouping_filling col fill_grouping = spec_fill col fill_grouping"
  by (cases fill_grouping) simp_all

lemma coerce_fill_stored: "coerce_fill rt df col s s = stored_fill rt df col s"
  by (cases "dtype_of rt (column_values df col)")
     (simp_all add: coerce_fill_def stored_fill_def Let_def)

text \<open>
  C1, as the code has it: a call with no plain columns, whose fill values for the
  grouping columns are no lists, tuples or dicts, and that returns a table, returns
  among its rows the fully folded one. In that row every grouping column holds its
  resolved fill value, as the engine coerces it to the dtype of the original column,
  and every value column holds what its reduction gives on the whole column of the
  table: the cell of the one row of \<open>df.agg\<close> with the resolved mapping, which maps the
  columns as the aggregation argument says.
\<close>

theorem cubinggroupby_grand_total:
  assumes "cubinggroupby rt df a b c agg_arg fill_grouping as_index = Inr res"
    and "spec_cols a = []"
    and "\<forall>g \<in> set (spec_cols b @ spec_cols c). is_scalar (spec_fill g fill_grouping)"
  shows "\<exists>row \<in> set (rows res).
           (\<forall>g \<in> set (spec_cols b @ spec_cols c).
              stored_fill rt df g (spec_fill g fill_grouping) = Inr (cell row g))
         \<and> (\<forall>v f. spec_agg df a b c agg_arg v = Some f \<longrightarrow>
                reduce rt f (column_values df v) = Inr (cell row v))
         \<and> (\<exists>cfg total trow.
                cubinggroupby_resolve rt df a b c agg_arg = Inr cfg
              \<and> (\<forall>v. map_of (agg cfg) v = spec_agg df a b c agg_arg v)
              \<and> df_agg rt df (agg cfg) = Inr total \<and> rows total = [trow]
              \<and> (\<forall>v \<in> set (value_cols cfg). cell row v = cell trow v))"
proof -
  from cubinggroupby_Inr[OF assms(1)] obtain cfg dfs u where
    cfg: "cubinggroupby_resolve rt df a b c agg_arg = Inr cfg"
    and dfs: "mapM_err (single_result rt df cfg fill_grouping) (grouping_sets cfg) = Inr dfs"
    and u: "concat_tables dfs = Inr u"
    and uniq: "\<forall>g \<in> set (all_groupby_cols cfg). count_list (columns u) g \<le> 1"
    and res: "mset (rows res) = mset (rows u)"
    by blast
  note args = cubinggroupby_resolve_args[OF cfg]
  note spec = resolved_agg_spec[OF cfg]
  have plain: "normal_cols cfg = []"
    using args(1) assms(2) by simp
  have gb: "all_groupby_cols cfg = spec_cols b @ spec_cols c"
    using args(4) assms(2) by simp
  have rc: "result_cols cfg = all_groupby_cols cfg @ value_cols cfg"
    by (rule args(5))
  obtain rest where rest: "grouping_sets cfg = ([], []) # rest"
    using grouping_sets_Cons by blast
  from dfs rest obtain d0 ds where
    d0: "single_result rt df cfg fill_grouping ([], []) = Inr d0" and ds: "dfs = d0 # ds"
    using mapM_err_Cons[of "single_result rt df cfg fill_grouping" "([], [])" rest dfs] by auto
  define difference where
    "difference = filter (\<lambda>x. x \<notin> set ([] :: pyval list)) (remdups (all_groupby_cols cfg))"
  define rem where "rem = reorder (set_order rt difference) difference"
  from d0 plain obtain total filled where
    ag: "df_agg rt df (agg cfg) = Inr total"
    and fl: "foldM_err (fill_column rt df fill_grouping) rem total = Inr filled"
    and sel: "select_columns filled (result_cols cfg) = Inr d0"
    unfolding single_result_def Let_def rem_def difference_def
    by (auto dest!: bind_err_Inr)
  have rem_set: "set rem = set (all_groupby_cols cfg)"
    by (simp add: rem_def difference_def set_reorder)
  have hash: "hashable g" if "g \<in> set (spec_cols b @ spec_cols c)" for g
    using resolved_cols_hashable[OF cfg] that by (auto simp: list_all_iff)
  have fill_eq: "get_grouping_filling g fill_grouping = spec_fill g fill_grouping"
    if "g \<in> set (spec_cols b @ spec_cols c)" for g
    using get_grouping_filling_spec[OF hash[OF that]] .
  have scalar: "\<forall>x \<in> set rem. is_scalar (get_grouping_filling x fill_grouping)"
    using assms(3) fill_eq by (simp add: rem_set gb)
  from df_agg_Inr[OF ag] obtain trow where
    trow: "rows total = [trow]"
    and red: "\<forall>v f. map_of (agg cfg) v = Some f \<longrightarrow>
                reduce rt f (column_values df v) = Inr (cell trow v)"
    by blast
  from foldM_fill_single_row[OF fl trow scalar] obtain r' where
    r': "rows filled = [r']"
        "\<forall>x. x \<notin> set rem \<longrightarrow> cell r' x = cell trow x"
        "\<forall>x \<in> set rem. coerce_fill rt df x (get_grouping_filling x fill_grouping)
                            (get_grouping_filling x fill_grouping) = Inr (cell r' x)"
    by blast
  define row where "row = map (\<lambda>c. (c, cell r' c)) (result_cols cfg)"
  have d0_rows: "rows d0 = [row]" and d0_cols: "columns d0 = result_cols cfg"
    using select_columns_Inr[OF sel] r'(1) by (simp_all add: row_def)
  have cols_u: "columns u = result_cols cfg"
    using concat_tables_Inr[OF u] ds d0_cols by simp
  have "row \<in> set (rows u)"
    using concat_tables_Inr[OF u] ds d0_rows by simp
  then have in_res: "row \<in> set (rows res)"
    using res by (metis set_mset_mset)
  have cell_row: "cell row x = cell r' x" if "x \<in> set (result_cols cfg)" for x
    unfolding row_def using that by (rule cell_select)
  have groups: "\<forall>g \<in> set (spec_cols b @ spec_cols c).
      stored_fill rt df g (spec_fill g fill_grouping) = Inr (cell row g)"
  proof
    fix g
    assume g: "g \<in> set (spec_cols b @ spec_cols c)"
    then have "g \<in> set rem" and "g \<in> set (result_cols cfg)"
      by (auto simp: rem_set gb rc)
    with r'(3) cell_row[of g] have
      "coerce_fill rt df g (get_grouping_filling g fill_grouping)
         (get_grouping_filling g fill_grouping) = Inr (cell row g)"
      by simp
    then show "stored_fill rt df g (spec_fill g fill_grouping) = Inr (cell row g)"
      by (simp only: fill_eq[OF g] coerce_fill_stored)
  qed
  have value_cell: "cell row v = cell trow v" if "v \<in> set (value_cols cfg)" for v
  proof -
    have "v \<notin> set (all_groupby_cols cfg)"
    proof
      assume g: "v \<in> set (all_groupby_cols cfg)"
      then have "2 \<le> count_list (columns u) v"
        using that by (simp only: cols_u rc twice_in_append)
      with uniq g show False by fastforce
    qed
    then have "cell r' v = cell trow v"
      using r'(2) rem_set by simp
    with cell_row[of v] that show ?thesis by (simp add: rc)
  qed
  have reduced: "\<forall>v f. spec_agg df a b c agg_arg v = Some f \<longrightarrow>
      reduce rt f (column_values df v) = Inr (cell row v)"
  proof (intro allI impI)
    fix v f
    assume "spec_agg df a b c agg_arg v = Some f"
    then have m: "map_of (agg cfg) v = Some f"
      by (simp only: spec(1))
    then have "v \<in> set (map fst (agg cfg))"
      by (metis map_of_eq_None_iff option.distinct(1) set_map)
    then have "v \<in> set (value_cols cfg)"
      by (simp only: spec(2))
    with red m value_cell show "reduce rt f (column_values df v) = Inr (cell row v)"
      by simp
  qed
  have direct: "\<exists>cfg total trow.
                cubinggroupby_resolve rt df a b c agg_arg = Inr cfg
              \<and> (\<forall>v. map_of (agg cfg) v = spec_agg df a b c agg_arg v)
              \<and> df_agg rt df (agg cfg) = Inr total \<and> rows total = [trow]
              \<and> (\<forall>v \<in> set (value_cols cfg). cell row v = cell trow v)"
    using cfg spec(1) ag trow value_cell by blast
  show ?thesis
    using in_res groups reduced direct by blast
qed

theorem cubinggroupby_grand_total_witness:
  "cubinggroupby sample_runtime sample_df PNone (PList [PStr ''a'']) PNone
      (PDict [(PStr ''v'', PStr ''sum'')]) (PDict [(PStr ''a'', PStr ''TOTAL'')]) True
     = Inr \<lparr>index_names = [PStr ''a''], columns = [PStr ''v''],
            rows = [[(PStr ''a'', PStr ''TOTAL''), (PStr ''v'', PInt 60)],
                    [(PStr ''a'', PStr ''x''), (PStr ''v'', PInt 10)],
                    [(PStr ''a'', PStr ''y''), (PStr ''v'', PInt 20)]]\<rparr>
   \<and> spec_cols PNone = []
   \<and> is_scalar (spec_fill (PStr ''a'') (PDict [(PStr ''a'', PStr ''TOTAL'')]))
   \<and> stored_fill sample_runtime sample_df (PStr ''a'')
         (spec_fill (PStr ''a'') (PDict [(PStr ''a'', PStr ''TOTAL'')]))
       = Inr (cell [(PStr ''a'', PStr ''TOTAL''), (PStr ''v'', PInt 60)] (PStr ''a''))
   \<and> spec_agg sample_df PNone (PList [PStr ''a'']) PNone (PDict [(PStr ''v'', PStr ''sum'')])
         (PStr ''v'') = Some (PStr ''sum'')
   \<and> reduce sample_runtime (PStr ''sum'') (column_values sample_df (PStr ''v''))
       = Inr (cell [(PStr ''a'', PStr ''TOTAL''), (PStr ''v'', PInt 60)] (PStr ''v''))"
proof -
  have run: "cubinggroupby sample_runtime sample_df PNone (PList [PStr ''a'']) PNone
      (PDict [(PStr ''v'', PStr ''sum'')]) (PDict [(PStr ''a'', PStr ''TOTAL'')]) True
     = Inr \<lparr>index_names = [PStr ''a''], columns = [PStr ''v''],
            rows = [[(PStr ''a'', PStr ''TOTAL''), (PStr ''v'', PInt 60)],
                    [(PStr ''a'', PStr ''x''), (PStr ''v'', PInt 10)],
                    [(PStr ''a'', PStr ''y''), (PStr ''v'', PInt 20)]]\<rparr>"
    by code_simp
  have plain: "spec_cols PNone = []"
    by simp
  have scalar: "is_scalar (spec_fill (PStr ''a'') (PDict [(PStr ''a'', PStr ''TOTAL'')]))"
    by simp
  have scalars: "\<forall>g \<in> set (spec_cols (PList [PStr ''a'']) @ spec_cols PNone).
      is_scalar (spec_fill g (PDict [(PStr ''a'', PStr ''TOTAL'')]))"
    by simp
  have filled: "stored_fill sample_runtime sample_df (PStr ''a'')
         (spec_fill (PStr ''a'') (PDict [(PStr ''a'', PStr ''TOTAL'')]))
       = Inr (cell [(PStr ''a'', PStr ''TOTAL''), (PStr ''v'', PInt 60)] (PStr ''a''))"
    by code_simp
  have mapped: "spec_agg sample_df PNone (PList [PStr ''a'']) PNone
      (PDict [(PStr ''v'', PStr ''sum'')]) (PStr ''v'') = Some (PStr ''sum'')"
    by (simp add: spec_agg_def)
  have reduced: "reduce sample_runtime (PStr ''sum'') (column_values sample_df (PStr ''v''))
       = Inr (cell [(PStr ''a'', PStr ''TOTAL''), (PStr ''v'', PInt 60)] (PStr ''v''))"
    by code_simp
  note total = cubinggroupby_grand_total[OF run plain scalars]
  show ?thesis
    using total run plain scalar filled mapped reduced by (intro conjI)
qed

text \<open>
  C1 as stated fails for a fill value that is a list: the column assignment of line 157
  takes a list element by element. On a table of one row, with the fill \<open>['T']\<close> for
  the cube column \<open>a\<close>, the resolved fill value is the list, and no row of the result
  holds it: the fully folded row holds \<open>'T'\<close>.
\<close>

theorem cubinggroupby_grand_total_counterexample:
  "cubinggroupby sample_runtime single_df PNone (PList [PStr ''a'']) PNone
      (PDict [(PStr ''v'', PStr ''sum'')]) (PDict [(PStr ''a'', PList [PStr ''T''])]) False
     = Inr \<lparr>index_names = [], columns = [PStr ''a'', PStr ''v''],
            rows = [[(PStr ''a'', PStr ''T''), (PStr ''v'', PInt 10)],
                    [(PStr ''a'', PStr ''x''), (PStr ''v'', PInt 10)]]\<rparr>
   \<and> get_grouping_filling (PStr ''a'') (PDict [(PStr ''a'', PList [PStr ''T''])])
       = PList [PStr ''T'']
   \<and> spec_fill (PStr ''a'') (PDict [(PStr ''a'', PList [PStr ''T''])]) = PList [PStr ''T'']
   \<and> cell [(PStr ''a'', PStr ''T''), (PStr ''v'', PInt 10)] (PStr ''a'') \<noteq> PList [PStr ''T'']
   \<and> cell [(PStr ''a'', PStr ''x''), (PStr ''v'', PInt 10)] (PStr ''a'') \<noteq> PList [PStr ''T'']"
  by code_simp

subsection \<open>The order of the value columns\<close>

text \<open>
  C3: two runs on the same arguments that differ only in the order in which the Python
  runtime iterates a set. With a reduction name for the aggregation, the value columns
  are listed from a set (line 118), and the two results differ in the order of their
  columns.
\<close>

theorem cubinggroupby_set_order_dependent:
  "cubinggroupby sample_runtime sample_df PNone (PList [PStr ''a'']) PNone (PStr ''sum'')
      PNone False
     = Inr \<lparr>index_names = [], columns = [PStr ''a'', PStr ''v'', PStr ''w''],
            rows = [[(PStr ''a'', PStr ''x''), (PStr ''v'', PInt 10), (PStr ''w'', PInt 100)],
                    [(PStr ''a'', PStr ''y''), (PStr ''v'', PInt 20), (PStr ''w'', PInt 200)],
                    [(PStr ''a'', PNone), (PStr ''v'', PInt 60), (PStr ''w'', PInt 600)]]\<rparr>
   \<and> cubinggroupby reversed_runtime sample_df PNone (PList [PStr ''a'']) PNone (PStr ''sum'')
      PNone False
     = Inr \<lparr>index_names = [], columns = [PStr ''a'', PStr ''w'', PStr ''v''],
            rows = [[(PStr ''a'', PStr ''x''), (PStr ''w'', PInt 100), (PStr ''v'', PInt 10)],
                    [(PStr ''a'', PStr ''y''), (PStr ''w'', PInt 200), (PStr ''v'', PInt 20)],
                    [(PStr ''a'', PNone), (PStr ''w'', PInt 600), (PStr ''v'', PInt 60)]]\<rparr>"
  by code_simp

text \<open>
  With a mapping for the aggregation the order of iteration of a set has no part in
  the result: the value columns are the keys of the mapping in the caller's order, and
  the folded columns of a grouping set, filled in the order of iteration of a set, are
  put in the order of the result columns afterwards (line 172).
\<close>

lemma fill_column_fill_values:
  "fill_column rt df fill_grouping c t =
     (case fill_values rt df fill_grouping c (length (rows t)) of
        Inl e \<Rightarrow> Inl e
      | Inr vs \<Rightarrow>
          Inr (t\<lparr>columns := (if c \<in> set (columns t) then columns t else columns t @ [c]),
                 rows := map (\<lambda>(r, v). set_cell c v r) (zip (rows t) vs)\<rparr>))"
  by (simp add: fill_column_def fill_values_def Let_def split: sum.splits)

lemma fill_values_length: "fill_values rt df fill_grouping c n = Inr vs \<Longrightarrow> length vs = n"
proof -
  assume a: "fill_values rt df fill_grouping c n = Inr vs"
  then obtain cells where
    cells: "fill_cells (get_grouping_filling c fill_grouping) n = Inr cells"
    and vs: "mapM_err (coerce_fill rt df c (get_grouping_filling c fill_grouping)) cells = Inr vs"
    by (auto simp: fill_values_def split: sum.splits if_splits)
  have "length cells = n"
    using cells by (cases "get_grouping_filling c fill_grouping") (auto split: if_splits)
  moreover have "length vs = length cells"
    using mapM_err_Inr[OF vs] by (simp add: list_all2_lengthD)
  ultimately show ?thesis by simp
qed

lemma foldM_fill_cells:
  assumes "foldM_err (fill_column rt df fill_grouping) cs t = Inr t'"
  shows "length (rows t') = length (rows t) \<and> index_names t' = index_names t
       \<and> set (columns t') = set (columns t) \<union> set cs
       \<and> (\<forall>x \<in> set cs. \<exists>vs. fill_values rt df fill_grouping x (length (rows t)) = Inr vs
              \<and> (\<forall>i < length (rows t). cell (rows t' ! i) x = vs ! i))
       \<and> (\<forall>x. x \<notin> set cs \<longrightarrow> (\<forall>i < length (rows t). cell (rows t' ! i) x = cell (rows t ! i) x))"
  using assms
proof (induction cs arbitrary: t)
  case Nil
  then show ?case by simp
next
  case (Cons c cs)
  from Cons.prems obtain t1 where t1: "fill_column rt df fill_grouping c t = Inr t1"
      and rest: "foldM_err (fill_column rt df fill_grouping) cs t1 = Inr t'"
    by (auto split: sum.splits)
  from t1 obtain vs where
    vs: "fill_values rt df fill_grouping c (length (rows t)) = Inr vs"
    and t1_eq: "t1 = t\<lparr>columns := (if c \<in> set (columns t) then columns t else columns t @ [c]),
                       rows := map (\<lambda>(r, v). set_cell c v r) (zip (rows t) vs)\<rparr>"
    by (auto simp: fill_column_fill_values split: sum.splits)
  have lvs: "length vs = length (rows t)"
    by (rule fill_values_length[OF vs])
  have len1: "length (rows t1) = length (rows t)"
    by (simp add: t1_eq lvs)
  have idx1: "index_names t1 = index_names t"
    by (simp add: t1_eq)
  have cols1: "set (columns t1) = insert c (set (columns t))"
    by (auto simp: t1_eq)
  have cell1: "cell (rows t1 ! i) x = (if x = c then vs ! i else cell (rows t ! i) x)"
    if "i < length (rows t)" for i x
    using that lvs by (simp add: t1_eq cell_set_cell)
  note ih = Cons.IH[OF rest]
  have a: "length (rows t') = length (rows t)" and b: "index_names t' = index_names t"
    and cc: "set (columns t') = set (columns t) \<union> set (c # cs)"
    using ih len1 idx1 cols1 by auto
  have d: "\<exists>ws. fill_values rt df fill_grouping x (length (rows t)) = Inr ws
              \<and> (\<forall>i < length (rows t). cell (rows t' ! i) x = ws ! i)"
    if "x \<in> set (c # cs)" for x
  proof (cases "x \<in> set cs")
    case True
    with ih show ?thesis by (simp add: len1)
  next
    case False
    with that have xc: "x = c" by simp
    have "\<forall>i < length (rows t). cell (rows t' ! i) c = vs ! i"
      using ih False xc cell1 by (simp add: len1)
    with vs xc show ?thesis by blast
  qed
  have e: "\<forall>i < length (rows t). cell (rows t' ! i) x = cell (rows t ! i) x"
    if "x \<notin> set (c # cs)" for x
    using ih that cell1 by (simp add: len1)
  show ?case
    using a b cc d e by blast
qed

lemma foldM_fill_succeeds:
  assumes "\<forall>x \<in> set cs. \<exists>vs. fill_values rt df fill_grouping x (length (rows t)) = Inr vs"
  shows "\<exists>t'. foldM_err (fill_column rt df fill_grouping) cs t = Inr t'"
  using assms
proof (induction cs arbitrary: t)
  case Nil
  show ?case by simp
next
  case (Cons c cs)
  from Cons.prems obtain vs where
    vs: "fill_values rt df fill_grouping c (length (rows t)) = Inr vs"
    by auto
  then obtain t1 where t1: "fill_column rt df fill_grouping c t = Inr t1"
    by (simp add: fill_column_fill_values)
  have "length (rows t1) = length (rows t)"
    by (rule fill_column_length[OF t1])
  with Cons.prems have
    "\<forall>x \<in> set cs. \<exists>vs. fill_values rt df fill_grouping x (length (rows t1)) = Inr vs"
    by simp
  from Cons.IH[OF this] t1 show ?case by simp
qed

lemma select_columns_cong:
  assumes "length (rows s) = length (rows t)" and "index_names s = index_names t"
    and "set (columns s) = set (columns t)"
    and "\<forall>x. \<forall>i < length (rows t). cell (rows s ! i) x = cell (rows t ! i) x"
  shows "select_columns s cols = select_columns t cols"
proof -
  have "map (\<lambda>r. map (\<lambda>c. (c, cell r c)) cols) (rows s)
      = map (\<lambda>r. map (\<lambda>c. (c, cell r c)) cols) (rows t)"
    using assms(1,4) by (auto simp: list_eq_iff_nth_eq)
  then show ?thesis
    using assms(2,3) by (simp add: select_columns_def)
qed

lemma foldM_fill_order:
  assumes "foldM_err (fill_column rt df fill_grouping) cs t = Inr f" and "set cs' = set cs"
  shows "\<exists>f'. foldM_err (fill_column rt df fill_grouping) cs' t = Inr f'
             \<and> select_columns f' cols = select_columns f cols"
proof -
  note A = foldM_fill_cells[OF assms(1)]
  have "\<forall>x \<in> set cs'. \<exists>vs. fill_values rt df fill_grouping x (length (rows t)) = Inr vs"
    using A assms(2) by blast
  from foldM_fill_succeeds[OF this] obtain f' where
    f': "foldM_err (fill_column rt df fill_grouping) cs' t = Inr f'"
    by blast
  note B = foldM_fill_cells[OF f']
  have cells: "cell (rows f' ! i) x = cell (rows f ! i) x" if "i < length (rows t)" for i x
  proof (cases "x \<in> set cs")
    case True
    from A True obtain vs where
      vs: "fill_values rt df fill_grouping x (length (rows t)) = Inr vs"
          "\<forall>i < length (rows t). cell (rows f ! i) x = vs ! i"
      by blast
    from B True assms(2) obtain ws where
      ws: "fill_values rt df fill_grouping x (length (rows t)) = Inr ws"
          "\<forall>i < length (rows t). cell (rows f' ! i) x = ws ! i"
      by blast
    from vs(1) ws(1) have "ws = vs" by simp
    with vs(2) ws(2) that show ?thesis by simp
  next
    case False
    with A B assms(2) that show ?thesis by simp
  qed
  have "select_columns f' cols = select_columns f cols"
  proof (rule select_columns_cong)
    show "length (rows f') = length (rows f)" using A B by simp
    show "index_names f' = index_names f" using A B by simp
    show "set (columns f') = set (columns f)" using A B assms(2) by simp
    show "\<forall>x. \<forall>i < length (rows f). cell (rows f' ! i) x = cell (rows f ! i) x"
      using cells A by simp
  qed
  with f' show ?thesis by blast
qed

lemma mapM_err_mono:
  assumes "\<And>x y. x \<in> set xs \<Longrightarrow> f x = Inr y \<Longrightarrow> g x = Inr y"
    and "mapM_err f xs = Inr ys"
  shows "mapM_err g xs = Inr ys"
  using assms
proof (induction xs arbitrary: ys)
  case Nil
  then show ?case by simp
next
  case (Cons x xs)
  from Cons.prems(2) obtain y ys' where
    y: "f x = Inr y" and ys': "mapM_err f xs = Inr ys'" and ys: "ys = y # ys'"
    by (auto split: sum.splits)
  have "g x = Inr y"
    using Cons.prems(1)[of x y] y by simp
  moreover have "mapM_err g xs = Inr ys'"
    using Cons.IH[OF _ ys'] Cons.prems(1) by simp
  ultimately show ?case
    using ys by simp
qed

lemma single_result_set_order:
  assumes "single_result rt df cfg fill_grouping comb = Inr t"
  shows "single_result (rt\<lparr>set_order := ord\<rparr>) df cfg fill_grouping comb = Inr t"
proof -
  define rt' where "rt' = rt\<lparr>set_order := ord\<rparr>"
  define gcols where "gcols = normal_cols cfg @ fst comb @ snd comb"
  define difference where
    "difference = filter (\<lambda>x. x \<notin> set gcols) (remdups (all_groupby_cols cfg))"
  have same_coerce: "coerce_fill rt' df x d = coerce_fill rt df x d" for x d
    by (intro ext) (simp add: coerce_fill_def rt'_def Let_def)
  have same_fill: "fill_column rt' df fill_grouping = fill_column rt df fill_grouping"
    by (intro ext) (simp add: fill_column_def same_coerce Let_def cong: sum.case_cong if_cong)
  have same_agg: "df_agg rt' df ag = df_agg rt df ag" for ag
    by (simp add: df_agg_def rt'_def)
  have same_grp: "groupby_agg rt' df cols ag = groupby_agg rt df cols ag" for cols ag
    by (simp add: groupby_agg_def group_keys_def rt'_def)
  from assms obtain aggregated filled where
    ag: "(if gcols = [] then df_agg rt df (agg cfg) else groupby_agg rt df gcols (agg cfg))
          = Inr aggregated"
    and fl: "foldM_err (fill_column rt df fill_grouping)
               (reorder (set_order rt difference) difference) aggregated = Inr filled"
    and sel: "select_columns filled (result_cols cfg) = Inr t"
    unfolding single_result_def Let_def gcols_def[symmetric] difference_def[symmetric]
    by (auto dest!: bind_err_Inr)
  have "set (reorder (set_order rt' difference) difference)
      = set (reorder (set_order rt difference) difference)"
    by (simp add: set_reorder)
  from foldM_fill_order[OF fl this, of "result_cols cfg"] obtain f' where
    f': "foldM_err (fill_column rt df fill_grouping)
           (reorder (set_order rt' difference) difference) aggregated = Inr f'"
    and sel': "select_columns f' (result_cols cfg) = select_columns filled (result_cols cfg)"
    by blast
  have ag': "(if gcols = [] then df_agg rt' df (agg cfg)
              else groupby_agg rt' df gcols (agg cfg)) = Inr aggregated"
    using ag by (simp only: same_agg same_grp)
  have "single_result rt' df cfg fill_grouping comb = Inr t"
    unfolding single_result_def Let_def gcols_def[symmetric] difference_def[symmetric]
    by (simp only: ag' same_fill f' sel' sel bind_err_def sum.case)
  then show ?thesis
    by (simp only: rt'_def)
qed

lemma cubinggroupby_dict_set_order:
  assumes "cubinggroupby rt df a b c (PDict kvs) fill_grouping as_index = Inr res"
  shows "cubinggroupby (rt\<lparr>set_order := ord\<rparr>) df a b c (PDict kvs) fill_grouping as_index
           = Inr res"
proof -
  define rt' where "rt' = rt\<lparr>set_order := ord\<rparr>"
  have same_cfg: "cubinggroupby_resolve rt' df a b c (PDict kvs)
      = cubinggroupby_resolve rt df a b c (PDict kvs)"
    by (simp add: cubinggroupby_resolve_def resolve_agg_dict Let_def cong: sum.case_cong if_cong)
  have same_sort: "sort_values rt' by t = sort_values rt by t" for "by" t
    by (simp add: sort_values_def rt'_def)
  have same_index: "sort_index rt' t = sort_index rt t" for t
    by (simp add: sort_index_def rt'_def)
  from assms obtain cfg where cfg: "cubinggroupby_resolve rt df a b c (PDict kvs) = Inr cfg"
    by (auto simp: cubinggroupby_def dest!: bind_err_Inr)
  with assms obtain dfs where
    dfs: "mapM_err (single_result rt df cfg fill_grouping) (grouping_sets cfg) = Inr dfs"
    by (auto simp: cubinggroupby_def bind_err_def split: sum.splits)
  have dfs': "mapM_err (single_result rt' df cfg fill_grouping) (grouping_sets cfg) = Inr dfs"
  proof (rule mapM_err_mono[OF _ dfs])
    fix comb t
    assume "single_result rt df cfg fill_grouping comb = Inr t"
    then show "single_result rt' df cfg fill_grouping comb = Inr t"
      unfolding rt'_def by (rule single_result_set_order)
  qed
  have "cubinggroupby rt' df a b c (PDict kvs) fill_grouping as_index
      = cubinggroupby rt df a b c (PDict kvs) fill_grouping as_index"
    by (simp add: cubinggroupby_def same_cfg cfg dfs dfs' bind_err_def same_sort same_index
        Let_def cong: sum.case_cong if_cong)
  with assms show ?thesis
    by (simp only: rt'_def)
qed

text \<open>
  The table of the repository's test, cube on category and area, rollup on year: over
  the 8 grouping sets there are 30 distinct combinations without a null, as many as the
  rows of the table the test expects, and 41 when the combinations holding a null are
  counted too.
\<close>

lemma cubinggroupby_test_counts:
  "sum_list (map (\<lambda>(cs, rs). nonnull_combinations test_df (spec_cols PNone @ cs @ rs))
         (List.product (get_cube_combinations (spec_cols (PList [PStr ''category'', PStr ''area''])))
                       (get_rollup_combinations (spec_cols (PList [PStr ''year'']))))) = 30"
  "sum_list (map (\<lambda>(cs, rs). distinct_combinations test_df (spec_cols PNone @ cs @ rs))
         (List.product (get_cube_combinations (spec_cols (PList [PStr ''category'', PStr ''area''])))
                       (get_rollup_combinations (spec_cols (PList [PStr ''year'']))))) = 41"
  by code_simp+

end
